theory Spec2Isabelle
  imports Complex_Main "HOL-Library.Log_Nat"
begin

section \<open>The Fermat near-solution search of \<^verbatim>\<open>fermat_utils.py\<close>\<close>

text \<open>
  The module searches integer triples \<open>(a, b, c)\<close> that satisfy, or nearly satisfy,
  \<open>a^n + b^n = c^n\<close>.  Python integers are unbounded, so \<open>a\<close>, \<open>b\<close>, \<open>c\<close> and
  \<open>max_value\<close> are \<^typ>\<open>int\<close>.  Exponents are \<^typ>\<open>nat\<close>: with a negative exponent
  Python's \<^verbatim>\<open>**\<close> leaves the integers, and that part of the behaviour is not
  modelled.

  The code calls floating-point library functions in two places, and only the integer
  obtained from the float is used afterwards:
  \<^item> \<^verbatim>\<open>int((a**n + b**n)**(1/n))\<close>, the truncated float \<open>n\<close>-th root of the integer
    \<open>a^n + b^n\<close>, for \<open>n > 0\<close>;
  \<^item> \<^verbatim>\<open>int(np.sqrt(c_squared))\<close>, the truncated float square root of an integer.
  Both are parameters of the model, the fields of a record \<open>float_ops\<close>: a function
  from the integer argument (and the exponent) to either an exception, such as the
  \<^verbatim>\<open>OverflowError\<close> of an integer too large for a double, or the truncated value, a
  natural number because neither float is negative.  A general theorem below holds for
  every such pair of functions, hence for whatever the floating-point unit returns.

  Python's \<^verbatim>\<open>/\<close> on two integers is modelled as the language defines it: the result
  is the double nearest to the exact quotient (ties to the even significand), and
  \<^verbatim>\<open>OverflowError\<close> is raised when that double would lie beyond the largest finite
  one.  A double is represented by its value, a \<^typ>\<open>rat\<close>; comparisons of doubles are
  comparisons of their values.  The literal \<^verbatim>\<open>0.1\<close> is the double nearest to \<open>1/10\<close>, and
  the argument \<^verbatim>\<open>error_threshold\<close> is the value of the number passed.
\<close>

datatype py_error = ZeroDivisionError | OverflowError | TypeError

record float_ops =
  root_int :: "int \<Rightarrow> nat \<Rightarrow> py_error + nat"
  sqrt_int :: "int \<Rightarrow> py_error + nat"

subsection \<open>Doubles\<close>

text \<open>
  Binary64 rounding of a rational: \<open>floor_log2 q\<close> is the exponent \<open>e\<close> with
  \<open>2^e \<le> q < 2^(e+1)\<close> for \<open>q > 0\<close>; doubles near \<open>q\<close> are the multiples of
  \<open>2^(e - 52)\<close>, or of \<open>2^(-1074)\<close> in the subnormal range; \<open>round_double q\<close> is the
  nearest of them, the one with the even multiplier on a tie.
\<close>

definition pow2 :: "int \<Rightarrow> rat" where
  "pow2 k = (if 0 \<le> k then 2 ^ nat k else 1 / 2 ^ nat (- k))"

definition floor_log2 :: "rat \<Rightarrow> int" where
  "floor_log2 q =
     (let k = bitlen (fst (quotient_of q)) - bitlen (snd (quotient_of q))
      in if pow2 k \<le> q then k else k - 1)"

definition round_half_even :: "rat \<Rightarrow> int" where
  "round_half_even m =
     (let f = \<lfloor>m\<rfloor>; r = m - of_int f
      in if r < 1 / 2 then f else if 1 / 2 < r then f + 1 else if even f then f else f + 1)"

definition round_double :: "rat \<Rightarrow> rat" where
  "round_double q =
     (if q = 0 then 0
      else
        (let u = max (floor_log2 \<bar>q\<bar> - 52) (- 1074)
         in sgn q * of_int (round_half_even (\<bar>q\<bar> / pow2 u)) * pow2 u))"

text \<open>
  The finite doubles lie below \<open>2^1024\<close>, written out here as a numeral so that it
  evaluates at once.
\<close>

definition double_limit :: rat where
  "double_limit = 179769313486231590772930519078902473361797697894230657273430081157732675805500963132708477322407536021120113879871393357658789768814416622492847430639474124377767893424865485276302219601246094119453082952085005768838150682342462881473913110540827237163350510684586298239947245938479716304835356329624224137216"

text \<open>
  Python's true division \<^verbatim>\<open>x / y\<close> of two integers: \<^verbatim>\<open>ZeroDivisionError\<close> for a zero
  divisor, \<^verbatim>\<open>OverflowError\<close> when the rounded quotient reaches \<open>2^1024\<close>.
\<close>

definition true_div :: "int \<Rightarrow> int \<Rightarrow> py_error + rat" where
  "true_div x y =
     (if y = 0 then Inl ZeroDivisionError
      else
        (let d = round_double (of_int x / of_int y)
         in if double_limit \<le> \<bar>d\<bar> then Inl OverflowError else Inr d))"

text \<open>The literal \<^verbatim>\<open>0.1\<close>.\<close>

definition float_tenth :: rat where
  "float_tenth = round_double (1 / 10)"

subsection \<open>Error metrics\<close>

text \<open>\<^verbatim>\<open>fermat_difference\<close>: \<^verbatim>\<open>abs(a**n + b**n - c**n)\<close>.\<close>

definition fermat_difference :: "int \<Rightarrow> int \<Rightarrow> int \<Rightarrow> nat \<Rightarrow> int" where
  "fermat_difference a b c n = \<bar>a ^ n + b ^ n - c ^ n\<bar>"

text \<open>
  \<^verbatim>\<open>fermat_relative_error\<close>: \<^verbatim>\<open>abs(a**n + b**n - c**n) / c**n\<close>, a true division of two
  integers.
\<close>

definition fermat_relative_error :: "int \<Rightarrow> int \<Rightarrow> int \<Rightarrow> nat \<Rightarrow> py_error + rat" where
  "fermat_relative_error a b c n = true_div \<bar>a ^ n + b ^ n - c ^ n\<bar> (c ^ n)"

subsection \<open>Loops\<close>

text \<open>
  A \<^verbatim>\<open>for\<close> loop over a finite sequence whose body updates a state and may raise: the
  first exception ends the loop and is the result.
\<close>

fun for_each :: "'x list \<Rightarrow> ('x \<Rightarrow> 's \<Rightarrow> py_error + 's) \<Rightarrow> 's \<Rightarrow> py_error + 's" where
  "for_each [] body s = Inr s"
| "for_each (x # xs) body s =
     (case body x s of Inl e \<Rightarrow> Inl e | Inr s' \<Rightarrow> for_each xs body s')"

subsection \<open>The batch generator \<^verbatim>\<open>generate_test_cases\<close>\<close>

text \<open>The rows of a result table; the column \<^verbatim>\<open>error\<close> holds an integer (\<^verbatim>\<open>0.0\<close> is 0).\<close>

record test_case =
  tc_a :: int
  tc_b :: int
  tc_c :: int
  tc_error :: int
  tc_relative_error :: rat
  tc_n :: nat

text \<open>
  Lines 90 to 101: the threshold filter for \<open>n > 2\<close> (\<^verbatim>\<open>continue\<close> leaves \<open>data\<close> as it
  is) and the append.
\<close>

definition keep_case ::
  "nat \<Rightarrow> int \<Rightarrow> int \<Rightarrow> int \<Rightarrow> int \<Rightarrow> rat \<Rightarrow> test_case list \<Rightarrow> test_case list" where
  "keep_case n a b c err rel_error data =
     (if n > 2 \<and> rel_error > float_tenth then data
      else data @ [\<lparr>tc_a = a, tc_b = b, tc_c = c, tc_error = err,
                     tc_relative_error = rel_error, tc_n = n\<rparr>])"

text \<open>
  Lines 67 to 101, the body of the loop over the grid of pairs \<open>(a, b)\<close>.  The expression
  \<^verbatim>\<open>1/n\<close> raises \<^verbatim>\<open>ZeroDivisionError\<close> for \<open>n = 0\<close>.
\<close>

definition grid_body ::
  "float_ops \<Rightarrow> nat \<Rightarrow> int \<times> int \<Rightarrow> test_case list \<Rightarrow> py_error + test_case list" where
  "grid_body fp n ab data =
     (case ab of (a, b) \<Rightarrow>
        if n = 0 then Inl ZeroDivisionError
        else
          (case root_int fp (a ^ n + b ^ n) n of
             Inl e \<Rightarrow> Inl e
           | Inr r \<Rightarrow>
               (let c_low = int r;
                    c_high = c_low + 1;
                    error_low = fermat_difference a b c_low n;
                    error_high = fermat_difference a b c_high n
                in
                  if error_low \<le> error_high \<and> c_low > 0 then
                    (case fermat_relative_error a b c_low n of
                       Inl e \<Rightarrow> Inl e
                     | Inr rel_error \<Rightarrow> Inr (keep_case n a b c_low error_low rel_error data))
                  else if c_high > 0 then
                    (case fermat_relative_error a b c_high n of
                       Inl e \<Rightarrow> Inl e
                     | Inr rel_error \<Rightarrow> Inr (keep_case n a b c_high error_high rel_error data))
                  else Inr data)))"

text \<open>Lines 108 to 118, the body of the inner loop of the enumeration for \<open>n = 2\<close>.\<close>

definition exact_body ::
  "float_ops \<Rightarrow> int \<Rightarrow> nat \<Rightarrow> int \<Rightarrow> int \<Rightarrow> test_case list \<Rightarrow> py_error + test_case list" where
  "exact_body fp max_value n a b data =
     (let c_squared = a ^ 2 + b ^ 2 in
        case sqrt_int fp c_squared of
          Inl e \<Rightarrow> Inl e
        | Inr r \<Rightarrow>
            (let c = int r in
               if c ^ 2 = c_squared \<and> c \<le> max_value then
                 Inr (data @ [\<lparr>tc_a = a, tc_b = b, tc_c = c, tc_error = 0,
                                tc_relative_error = 0, tc_n = n\<rparr>])
               else Inr data))"

text \<open>Lines 106 to 118: \<open>a\<close> runs over \<open>1..max_value\<close> and \<open>b\<close> over \<open>a..max_value\<close>.\<close>

definition exact_pass ::
  "float_ops \<Rightarrow> int \<Rightarrow> nat \<Rightarrow> test_case list \<Rightarrow> py_error + test_case list" where
  "exact_pass fp max_value n data =
     for_each [1..max_value]
       (\<lambda>a. for_each [a..max_value] (exact_body fp max_value n a)) data"

text \<open>Lines 61 to 101: the grid loop, started on the empty list.\<close>

definition grid_pass :: "float_ops \<Rightarrow> int \<Rightarrow> nat \<Rightarrow> py_error + test_case list" where
  "grid_pass fp max_value n =
     (let limit = min max_value 30 in
        for_each (List.product [1..limit] [1..limit]) (grid_body fp n) [])"

text \<open>Lines 61 to 121: the rows computed for one exponent \<open>n\<close>.\<close>

definition generate_for_n :: "float_ops \<Rightarrow> int \<Rightarrow> nat \<Rightarrow> py_error + test_case list" where
  "generate_for_n fp max_value n =
     (case grid_pass fp max_value n of
        Inl e \<Rightarrow> Inl e
      | Inr data \<Rightarrow> if n = 2 then exact_pass fp max_value n data else Inr data)"

text \<open>
  \<^verbatim>\<open>generate_test_cases\<close>: the dictionary \<open>results\<close> maps each exponent of \<open>n_values\<close> to
  its rows.
\<close>

definition generate_test_cases ::
  "float_ops \<Rightarrow> int \<Rightarrow> nat list \<Rightarrow> py_error + (nat \<rightharpoonup> test_case list)" where
  "generate_test_cases fp max_value n_values =
     for_each n_values
       (\<lambda>n results.
          case generate_for_n fp max_value n of
            Inl e \<Rightarrow> Inl e
          | Inr data \<Rightarrow> Inr (results(n \<mapsto> data)))
       Map.empty"

subsection \<open>The near-solution search \<^verbatim>\<open>find_near_solutions\<close>\<close>

record near_solution =
  ns_a :: int
  ns_b :: int
  ns_c :: int
  ns_error :: int
  ns_relative_error :: rat

text \<open>Lines 149 to 163, the body of the loop over the two candidates.\<close>

definition near_candidate ::
  "int \<Rightarrow> nat \<Rightarrow> rat \<Rightarrow> int \<Rightarrow> int \<Rightarrow> int \<Rightarrow> near_solution list
     \<Rightarrow> py_error + near_solution list" where
  "near_candidate max_value n error_threshold a b c near_solutions =
     (if c \<le> 0 \<or> c > max_value then Inr near_solutions
      else
        (let err = fermat_difference a b c n in
           case fermat_relative_error a b c n of
             Inl e \<Rightarrow> Inl e
           | Inr rel_error \<Rightarrow>
               if rel_error \<le> error_threshold then
                 Inr (near_solutions @ [\<lparr>ns_a = a, ns_b = b, ns_c = c, ns_error = err,
                                          ns_relative_error = rel_error\<rparr>])
               else Inr near_solutions))"

text \<open>Lines 143 to 163, the body of the loop over \<open>b\<close>.\<close>

definition near_body ::
  "float_ops \<Rightarrow> int \<Rightarrow> nat \<Rightarrow> rat \<Rightarrow> int \<Rightarrow> int \<Rightarrow> near_solution list
     \<Rightarrow> py_error + near_solution list" where
  "near_body fp max_value n error_threshold a b near_solutions =
     (if n = 0 then Inl ZeroDivisionError
      else
        (case root_int fp (a ^ n + b ^ n) n of
           Inl e \<Rightarrow> Inl e
         | Inr r \<Rightarrow>
             for_each [int r, int r + 1]
               (near_candidate max_value n error_threshold a b) near_solutions))"

definition find_near_solutions ::
  "float_ops \<Rightarrow> int \<Rightarrow> nat \<Rightarrow> rat \<Rightarrow> py_error + near_solution list" where
  "find_near_solutions fp max_value n error_threshold =
     for_each [1..max_value]
       (\<lambda>a. for_each [1..max_value] (near_body fp max_value n error_threshold a)) []"

subsection \<open>Exact roots\<close>

text \<open>
  The two floating-point functions at their mathematical values, for running the search
  on concrete inputs: \<open>floor_root s n\<close> is the largest \<open>k\<close> with \<open>k ^ n \<le> s\<close>, found by
  counting down from \<open>s\<close>.  The runs below use arguments under 60, where the float root is
  either an exact integer (as for 25) or far from the next integer (as for 8).
\<close>

fun root_search :: "int \<Rightarrow> nat \<Rightarrow> nat \<Rightarrow> nat" where
  "root_search s n 0 = 0"
| "root_search s n (Suc k) = (if int (Suc k) ^ n \<le> s then Suc k else root_search s n k)"

definition floor_root :: "int \<Rightarrow> nat \<Rightarrow> nat" where
  "floor_root s n = root_search s n (nat s)"

definition exact_ops :: float_ops where
  "exact_ops = \<lparr>root_int = (\<lambda>s n. Inr (floor_root s n)), sqrt_int = (\<lambda>s. Inr (floor_root s 2))\<rparr>"

subsection \<open>Auxiliary notions for the proofs\<close>

text \<open>
  A loop body that only appends to its accumulator is described by what it appends:
  \<open>extend s r\<close> puts the accumulator \<open>s\<close> in front of the rows of a result \<open>r\<close>.
\<close>

definition extend :: "'s list \<Rightarrow> py_error + 's list \<Rightarrow> py_error + 's list" where
  "extend s r = (case r of Inl e \<Rightarrow> Inl e | Inr ys \<Rightarrow> Inr (s @ ys))"

text \<open>
  The candidate that lines 79 to 88 retain for a pair, given \<open>c_low\<close>, and the rows that
  one pair of the grid contributes, given the relative error of that candidate.
\<close>

definition select_c :: "int \<Rightarrow> int \<Rightarrow> int \<Rightarrow> nat \<Rightarrow> int" where
  "select_c a b c_low n =
     (if fermat_difference a b c_low n \<le> fermat_difference a b (c_low + 1) n \<and> c_low > 0
      then c_low else c_low + 1)"

definition grid_rows :: "nat \<Rightarrow> int \<Rightarrow> int \<Rightarrow> int \<Rightarrow> rat \<Rightarrow> test_case list" where
  "grid_rows n a b c_low rel_error =
     keep_case n a b (select_c a b c_low n)
       (fermat_difference a b (select_c a b c_low n) n) rel_error []"

text \<open>
  The rows that one pair contributes to the enumeration for \<open>n = 2\<close>.
\<close>

definition exact_rows :: "int \<Rightarrow> nat \<Rightarrow> int \<Rightarrow> int \<Rightarrow> int \<Rightarrow> test_case list" where
  "exact_rows max_value n a b c =
     (if c ^ 2 = a ^ 2 + b ^ 2 \<and> c \<le> max_value
      then [\<lparr>tc_a = a, tc_b = b, tc_c = c, tc_error = 0, tc_relative_error = 0, tc_n = n\<rparr>]
      else [])"

text \<open>
  The rows that the enumeration appends for an exponent: those of \<open>exact_pass\<close> for
  \<open>n = 2\<close>, none otherwise.
\<close>

definition exact_part :: "float_ops \<Rightarrow> int \<Rightarrow> nat \<Rightarrow> py_error + test_case list" where
  "exact_part fp max_value n = (if n = 2 then exact_pass fp max_value n [] else Inr [])"

text \<open>
  The key \<open>(a, b)\<close> of a row, and the table \<^verbatim>\<open>results[n]\<close> of a call of
  \<^verbatim>\<open>generate_test_cases\<close> (\<open>None\<close> when the call raises or \<open>n\<close> is not a key).
\<close>

definition key_of :: "test_case \<Rightarrow> int \<times> int" where
  "key_of r = (tc_a r, tc_b r)"

definition result_set :: "float_ops \<Rightarrow> int \<Rightarrow> nat list \<Rightarrow> nat \<Rightarrow> test_case list option" where
  "result_set fp max_value n_values n =
     (case generate_test_cases fp max_value n_values of
        Inl e \<Rightarrow> None
      | Inr results \<Rightarrow> results n)"

section \<open>Loops that append\<close>

lemma extend_simps [simp]:
  "extend s (Inl e) = Inl e" "extend s (Inr ys) = Inr (s @ ys)"
  by (simp_all add: extend_def)

lemma extend_Nil [simp]: "extend [] r = r"
  by (cases r) simp_all

lemma extend_extend: "extend s (extend ys r) = extend (s @ ys) r"
  by (cases r) simp_all

lemma for_each_extend:
  assumes "\<And>x s. x \<in> set xs \<Longrightarrow> body x s = extend s (body x [])"
  shows "for_each xs body s = extend s (for_each xs body [])"
  using assms
proof (induction xs arbitrary: s)
  case Nil
  show ?case by simp
next
  case (Cons x xs)
  have step: "body x s = extend s (body x [])"
    by (rule Cons.prems) simp
  have ih: "\<And>t. for_each xs body t = extend t (for_each xs body [])"
    by (rule Cons.IH, rule Cons.prems) simp
  show ?case
  proof (cases "body x []")
    case (Inl e)
    with step show ?thesis by simp
  next
    case (Inr ys)
    with step have "body x s = Inr (s @ ys)" by simp
    then have "for_each (x # xs) body s = extend (s @ ys) (for_each xs body [])"
      using ih [of "s @ ys"] by simp
    moreover have "for_each (x # xs) body [] = extend ys (for_each xs body [])"
      using Inr ih [of ys] by simp
    ultimately show ?thesis by (simp add: extend_extend)
  qed
qed

lemma for_each_Inr_iff:
  assumes "\<And>x s. x \<in> set xs \<Longrightarrow> body x s = extend s (body x [])"
  shows "for_each xs body [] = Inr zs \<longleftrightarrow>
           (\<forall>x\<in>set xs. \<exists>ys. body x [] = Inr ys) \<and> zs = concat (map (\<lambda>x. projr (body x [])) xs)"
  using assms
proof (induction xs arbitrary: zs)
  case Nil
  show ?case by auto
next
  case (Cons x xs)
  have ext: "\<And>t. for_each xs body t = extend t (for_each xs body [])"
    by (rule for_each_extend, rule Cons.prems) simp
  have ih: "\<And>zs. for_each xs body [] = Inr zs \<longleftrightarrow>
           (\<forall>x\<in>set xs. \<exists>ys. body x [] = Inr ys) \<and> zs = concat (map (\<lambda>x. projr (body x [])) xs)"
    by (rule Cons.IH, rule Cons.prems) simp
  show ?case
  proof (cases "body x []")
    case (Inl e)
    then show ?thesis by auto
  next
    case (Inr ys)
    show ?thesis
    proof (cases "for_each xs body []")
      case (Inl e)
      with Inr ext [of ys] ih show ?thesis by auto
    next
      case r: (Inr ws)
      with Inr ext [of ys] ih [of ws] show ?thesis by auto
    qed
  qed
qed


lemma distinct_map_concat:
  assumes "distinct xs"
    and "\<And>x. x \<in> set xs \<Longrightarrow> distinct (map key (f x))"
    and "\<And>x r. x \<in> set xs \<Longrightarrow> r \<in> set (f x) \<Longrightarrow> g (key r) = x"
  shows "distinct (map key (concat (map f xs)))"
  using assms
proof (induction xs)
  case Nil
  show ?case by simp
next
  case (Cons x xs)
  have rest: "distinct (map key (concat (map f xs)))"
    using Cons.prems by (intro Cons.IH) auto
  have head: "distinct (map key (f x))"
    using Cons.prems(2) by simp
  have disj: "key r \<noteq> key r'" if "r \<in> set (f x)" and "r' \<in> set (concat (map f xs))" for r r'
  proof
    assume eq: "key r = key r'"
    from that(2) obtain y where y: "y \<in> set xs" and r': "r' \<in> set (f y)" by auto
    have "g (key r) = x" using Cons.prems(3) [of x r] that(1) by simp
    moreover have "g (key r') = y" using Cons.prems(3) [of y r'] y r' by simp
    ultimately have "x = y" using eq by simp
    with y Cons.prems(1) show False by simp
  qed
  show ?case
    using rest head disj by (auto simp: distinct_map inj_on_def)
qed

section \<open>Doubles and the error metrics\<close>

lemma pow2_pos: "0 < pow2 k"
  by (simp add: pow2_def)

lemma round_half_even_nonneg:
  assumes "0 \<le> m"
  shows "0 \<le> round_half_even m"
proof -
  from assms have "0 \<le> \<lfloor>m\<rfloor>" by simp
  then show ?thesis by (simp add: round_half_even_def Let_def)
qed

lemma round_double_nonneg:
  assumes "0 \<le> q"
  shows "0 \<le> round_double q"
proof (cases "q = 0")
  case True
  then show ?thesis by (simp add: round_double_def)
next
  case False
  define u where "u = max (floor_log2 \<bar>q\<bar> - 52) (- 1074)"
  from assms pow2_pos [of u] have "0 \<le> \<bar>q\<bar> / pow2 u" by simp
  then have "0 \<le> round_half_even (\<bar>q\<bar> / pow2 u)" by (rule round_half_even_nonneg)
  then have "(0 :: rat) \<le> of_int (round_half_even (\<bar>q\<bar> / pow2 u)) * pow2 u"
    using pow2_pos [of u] by simp
  moreover from assms False have "sgn q = 1" by simp
  ultimately show ?thesis
    using False by (simp add: round_double_def Let_def u_def)
qed

lemma true_div_zero_iff: "true_div x y = Inl ZeroDivisionError \<longleftrightarrow> y = 0"
  by (simp add: true_div_def Let_def)

lemma true_div_nonzero:
  "y \<noteq> 0 \<Longrightarrow> true_div x y =
     (if double_limit \<le> \<bar>round_double (of_int x / of_int y)\<bar> then Inl OverflowError
      else Inr (round_double (of_int x / of_int y)))"
  by (simp add: true_div_def Let_def)

lemma true_div_nonneg:
  assumes "true_div x y = Inr d" and "0 \<le> x" and "0 < y"
  shows "0 \<le> d"
proof -
  from assms(3) have "y \<noteq> 0" by simp
  with assms(1) have d: "d = round_double (of_int x / of_int y)"
    by (simp add: true_div_nonzero split: if_splits)
  from assms(2,3) have "(0 :: rat) \<le> of_int x / of_int y" by simp
  then show ?thesis unfolding d by (rule round_double_nonneg)
qed

lemma fermat_relative_error_zero_iff:
  "fermat_relative_error a b c n = Inl ZeroDivisionError \<longleftrightarrow> c ^ n = 0"
  by (simp add: fermat_relative_error_def true_div_zero_iff)

lemma relative_error_nonneg:
  assumes "fermat_relative_error a b c n = Inr rel" and "0 < c"
  shows "0 \<le> rel"
proof -
  from assms(2) have "0 < c ^ n" by simp
  moreover have "0 \<le> \<bar>a ^ n + b ^ n - c ^ n\<bar>" by simp
  ultimately show ?thesis
    using assms(1) true_div_nonneg [of "\<bar>a ^ n + b ^ n - c ^ n\<bar>" "c ^ n" rel]
    unfolding fermat_relative_error_def by blast
qed

section \<open>The near-solution search\<close>

lemma near_candidate_extend:
  "near_candidate max_value n t a b c sols
     = extend sols (near_candidate max_value n t a b c [])"
  by (simp add: near_candidate_def Let_def split: sum.splits)

lemma near_candidate_mem:
  assumes "near_candidate max_value n t a b c [] = Inr ys"
  shows "s \<in> set ys \<longleftrightarrow>
     0 < c \<and> c \<le> max_value
     \<and> (\<exists>rel. fermat_relative_error a b c n = Inr rel \<and> rel \<le> t
          \<and> s = \<lparr>ns_a = a, ns_b = b, ns_c = c, ns_error = fermat_difference a b c n,
                  ns_relative_error = rel\<rparr>)"
  using assms by (auto simp: near_candidate_def Let_def split: if_splits sum.splits)

lemma near_candidate_returns_iff:
  "(\<exists>ys. near_candidate max_value n t a b c [] = Inr ys) \<longleftrightarrow>
     (0 < c \<and> c \<le> max_value \<longrightarrow> (\<exists>rel. fermat_relative_error a b c n = Inr rel))"
  by (auto simp: near_candidate_def Let_def split: if_splits sum.splits)

lemma near_body_extend:
  "near_body fp max_value n t a b sols = extend sols (near_body fp max_value n t a b [])"
proof (cases "n = 0")
  case True
  then show ?thesis by (simp add: near_body_def)
next
  case False
  show ?thesis
  proof (cases "root_int fp (a ^ n + b ^ n) n")
    case (Inl e)
    with False show ?thesis by (simp add: near_body_def)
  next
    case (Inr r)
    have "for_each [int r, int r + 1] (near_candidate max_value n t a b) sols
      = extend sols (for_each [int r, int r + 1] (near_candidate max_value n t a b) [])"
      by (rule for_each_extend) (rule near_candidate_extend)
    with False Inr show ?thesis
      unfolding near_body_def by simp
  qed
qed

lemma near_body_Inr_iff:
  "near_body fp max_value n t a b [] = Inr ys \<longleftrightarrow>
     n \<noteq> 0 \<and> (\<exists>r ys1 ys2. root_int fp (a ^ n + b ^ n) n = Inr r
        \<and> near_candidate max_value n t a b (int r) [] = Inr ys1
        \<and> near_candidate max_value n t a b (int r + 1) [] = Inr ys2
        \<and> ys = ys1 @ ys2)"
proof (cases "n = 0")
  case True
  then show ?thesis by (simp add: near_body_def)
next
  case False
  show ?thesis
  proof (cases "root_int fp (a ^ n + b ^ n) n")
    case (Inl e)
    with False show ?thesis by (simp add: near_body_def)
  next
    case (Inr r)
    have "for_each [int r, int r + 1] (near_candidate max_value n t a b) [] = Inr ys \<longleftrightarrow>
        (\<exists>ys1 ys2. near_candidate max_value n t a b (int r) [] = Inr ys1
        \<and> near_candidate max_value n t a b (int r + 1) [] = Inr ys2
        \<and> ys = ys1 @ ys2)"
      unfolding for_each_Inr_iff [of "[int r, int r + 1]" "near_candidate max_value n t a b",
          OF near_candidate_extend]
      by auto
    with False Inr show ?thesis by (simp add: near_body_def)
  qed
qed

lemma near_inner_extend:
  "for_each bs (near_body fp max_value n t a) s
     = extend s (for_each bs (near_body fp max_value n t a) [])"
  by (rule for_each_extend) (rule near_body_extend)

lemma near_inner_Inr_iff:
  "for_each bs (near_body fp max_value n t a) [] = Inr zs \<longleftrightarrow>
     (\<forall>b\<in>set bs. \<exists>ys. near_body fp max_value n t a b [] = Inr ys)
     \<and> zs = concat (map (\<lambda>b. projr (near_body fp max_value n t a b [])) bs)"
  by (rule for_each_Inr_iff) (rule near_body_extend)

lemma find_near_solutions_Inr_iff:
  "find_near_solutions fp max_value n t = Inr sols \<longleftrightarrow>
     (\<forall>a\<in>set [1..max_value]. \<exists>zs. for_each [1..max_value] (near_body fp max_value n t a) [] = Inr zs)
     \<and> sols = concat (map (\<lambda>a. projr (for_each [1..max_value] (near_body fp max_value n t a) []))
                 [1..max_value])"
  unfolding find_near_solutions_def
  by (rule for_each_Inr_iff) (rule near_inner_extend)

lemma near_inner_returns_iff:
  "(\<exists>zs. for_each bs (near_body fp max_value n t a) [] = Inr zs) \<longleftrightarrow>
     (\<forall>b\<in>set bs. n \<noteq> 0 \<and> (\<exists>r. root_int fp (a ^ n + b ^ n) n = Inr r
        \<and> (\<forall>c\<in>{int r, int r + 1}. 0 < c \<and> c \<le> max_value \<longrightarrow>
              (\<exists>rel. fermat_relative_error a b c n = Inr rel))))"
proof -
  have "(\<exists>ys. near_body fp max_value n t a b [] = Inr ys) \<longleftrightarrow>
      n \<noteq> 0 \<and> (\<exists>r. root_int fp (a ^ n + b ^ n) n = Inr r
        \<and> (\<forall>c\<in>{int r, int r + 1}. 0 < c \<and> c \<le> max_value \<longrightarrow>
              (\<exists>rel. fermat_relative_error a b c n = Inr rel)))" for b
  proof -
    have "(\<exists>ys. near_body fp max_value n t a b [] = Inr ys) \<longleftrightarrow>
        n \<noteq> 0 \<and> (\<exists>r. root_int fp (a ^ n + b ^ n) n = Inr r
          \<and> (\<exists>ys1. near_candidate max_value n t a b (int r) [] = Inr ys1)
          \<and> (\<exists>ys2. near_candidate max_value n t a b (int r + 1) [] = Inr ys2))"
      unfolding near_body_Inr_iff by blast
    then show ?thesis
      unfolding near_candidate_returns_iff by simp
  qed
  then show ?thesis
    unfolding near_inner_Inr_iff by simp
qed

lemma find_near_solutions_returns_iff:
  "(\<exists>sols. find_near_solutions fp max_value n t = Inr sols) \<longleftrightarrow>
     (\<forall>a\<in>{1..max_value}. \<forall>b\<in>{1..max_value}.
        n \<noteq> 0 \<and> (\<exists>r. root_int fp (a ^ n + b ^ n) n = Inr r
        \<and> (\<forall>c\<in>{int r, int r + 1}. 0 < c \<and> c \<le> max_value \<longrightarrow>
              (\<exists>rel. fermat_relative_error a b c n = Inr rel))))"
proof -
  have "(\<exists>sols. find_near_solutions fp max_value n t = Inr sols) \<longleftrightarrow>
      (\<forall>a\<in>set [1..max_value]. \<exists>zs. for_each [1..max_value] (near_body fp max_value n t a) [] = Inr zs)"
    unfolding find_near_solutions_Inr_iff by simp
  then show ?thesis
    unfolding near_inner_returns_iff by simp
qed

lemma near_body_mem:
  assumes "near_body fp max_value n t a b [] = Inr ys"
  shows "s \<in> set ys \<longleftrightarrow>
     (\<exists>r c rel. root_int fp (a ^ n + b ^ n) n = Inr r \<and> (c = int r \<or> c = int r + 1)
        \<and> 0 < c \<and> c \<le> max_value
        \<and> fermat_relative_error a b c n = Inr rel \<and> rel \<le> t
        \<and> s = \<lparr>ns_a = a, ns_b = b, ns_c = c, ns_error = fermat_difference a b c n,
                ns_relative_error = rel\<rparr>)"
proof -
  from assms obtain r ys1 ys2 where r: "root_int fp (a ^ n + b ^ n) n = Inr r"
    and ys1: "near_candidate max_value n t a b (int r) [] = Inr ys1"
    and ys2: "near_candidate max_value n t a b (int r + 1) [] = Inr ys2"
    and ys: "ys = ys1 @ ys2"
    unfolding near_body_Inr_iff by blast
  define P where "P c \<longleftrightarrow> 0 < c \<and> c \<le> max_value
     \<and> (\<exists>rel. fermat_relative_error a b c n = Inr rel \<and> rel \<le> t
          \<and> s = \<lparr>ns_a = a, ns_b = b, ns_c = c, ns_error = fermat_difference a b c n,
                  ns_relative_error = rel\<rparr>)" for c
  have "s \<in> set ys \<longleftrightarrow> s \<in> set ys1 \<or> s \<in> set ys2"
    by (simp add: ys)
  also have "\<dots> \<longleftrightarrow> P (int r) \<or> P (int r + 1)"
    unfolding near_candidate_mem [OF ys1] near_candidate_mem [OF ys2] P_def ..
  also have "\<dots> \<longleftrightarrow> (\<exists>r' c. root_int fp (a ^ n + b ^ n) n = Inr r'
      \<and> (c = int r' \<or> c = int r' + 1) \<and> P c)"
    using r by auto
  also have "\<dots> \<longleftrightarrow> (\<exists>r c rel. root_int fp (a ^ n + b ^ n) n = Inr r \<and> (c = int r \<or> c = int r + 1)
        \<and> 0 < c \<and> c \<le> max_value
        \<and> fermat_relative_error a b c n = Inr rel \<and> rel \<le> t
        \<and> s = \<lparr>ns_a = a, ns_b = b, ns_c = c, ns_error = fermat_difference a b c n,
                ns_relative_error = rel\<rparr>)"
    unfolding P_def by blast
  finally show ?thesis .
qed

lemma find_near_solutions_mem:
  assumes "find_near_solutions fp max_value n t = Inr sols"
  shows "s \<in> set sols \<longleftrightarrow>
     (\<exists>a\<in>{1..max_value}. \<exists>b\<in>{1..max_value}. \<exists>r c rel.
        root_int fp (a ^ n + b ^ n) n = Inr r \<and> (c = int r \<or> c = int r + 1)
        \<and> 0 < c \<and> c \<le> max_value
        \<and> fermat_relative_error a b c n = Inr rel \<and> rel \<le> t
        \<and> s = \<lparr>ns_a = a, ns_b = b, ns_c = c, ns_error = fermat_difference a b c n,
                ns_relative_error = rel\<rparr>)"
proof -
  from assms have inner: "\<forall>a\<in>set [1..max_value]. \<exists>zs.
      for_each [1..max_value] (near_body fp max_value n t a) [] = Inr zs"
    and sols: "sols = concat (map (\<lambda>a. projr (for_each [1..max_value] (near_body fp max_value n t a) []))
                 [1..max_value])"
    by (simp_all add: find_near_solutions_Inr_iff)
  have row: "s \<in> set (projr (for_each [1..max_value] (near_body fp max_value n t a) [])) \<longleftrightarrow>
      (\<exists>b\<in>{1..max_value}. \<exists>r c rel.
        root_int fp (a ^ n + b ^ n) n = Inr r \<and> (c = int r \<or> c = int r + 1)
        \<and> 0 < c \<and> c \<le> max_value
        \<and> fermat_relative_error a b c n = Inr rel \<and> rel \<le> t
        \<and> s = \<lparr>ns_a = a, ns_b = b, ns_c = c, ns_error = fermat_difference a b c n,
                ns_relative_error = rel\<rparr>)"
    if a: "a \<in> {1..max_value}" for a
  proof -
    from a have "a \<in> set [1..max_value]" by simp
    with inner obtain zs where zs: "for_each [1..max_value] (near_body fp max_value n t a) [] = Inr zs"
      by blast
    then have bs: "\<forall>b\<in>set [1..max_value]. \<exists>ys. near_body fp max_value n t a b [] = Inr ys"
      and zs_eq: "zs = concat (map (\<lambda>b. projr (near_body fp max_value n t a b [])) [1..max_value])"
      by (simp_all add: near_inner_Inr_iff)
    have "s \<in> set zs \<longleftrightarrow> (\<exists>b\<in>{1..max_value}. s \<in> set (projr (near_body fp max_value n t a b [])))"
      by (auto simp: zs_eq)
    also have "\<dots> \<longleftrightarrow> (\<exists>b\<in>{1..max_value}. \<exists>r c rel.
        root_int fp (a ^ n + b ^ n) n = Inr r \<and> (c = int r \<or> c = int r + 1)
        \<and> 0 < c \<and> c \<le> max_value
        \<and> fermat_relative_error a b c n = Inr rel \<and> rel \<le> t
        \<and> s = \<lparr>ns_a = a, ns_b = b, ns_c = c, ns_error = fermat_difference a b c n,
                ns_relative_error = rel\<rparr>)"
    proof (rule bex_cong [OF refl])
      fix b assume "b \<in> {1..max_value}"
      then have "b \<in> set [1..max_value]" by simp
      with bs obtain ys where ys: "near_body fp max_value n t a b [] = Inr ys" by blast
      show "s \<in> set (projr (near_body fp max_value n t a b [])) \<longleftrightarrow>
        (\<exists>r c rel.
        root_int fp (a ^ n + b ^ n) n = Inr r \<and> (c = int r \<or> c = int r + 1)
        \<and> 0 < c \<and> c \<le> max_value
        \<and> fermat_relative_error a b c n = Inr rel \<and> rel \<le> t
        \<and> s = \<lparr>ns_a = a, ns_b = b, ns_c = c, ns_error = fermat_difference a b c n,
                ns_relative_error = rel\<rparr>)"
        using near_body_mem [OF ys, of s] by (simp add: ys)
    qed
    finally show ?thesis using zs by simp
  qed
  have "s \<in> set sols \<longleftrightarrow>
      (\<exists>a\<in>{1..max_value}. s \<in> set (projr (for_each [1..max_value] (near_body fp max_value n t a) [])))"
    by (auto simp: sols)
  also have "\<dots> \<longleftrightarrow> (\<exists>a\<in>{1..max_value}. \<exists>b\<in>{1..max_value}. \<exists>r c rel.
        root_int fp (a ^ n + b ^ n) n = Inr r \<and> (c = int r \<or> c = int r + 1)
        \<and> 0 < c \<and> c \<le> max_value
        \<and> fermat_relative_error a b c n = Inr rel \<and> rel \<le> t
        \<and> s = \<lparr>ns_a = a, ns_b = b, ns_c = c, ns_error = fermat_difference a b c n,
                ns_relative_error = rel\<rparr>)"
    by (rule bex_cong [OF refl]) (rule row)
  finally show ?thesis .
qed


lemma near_candidate_no_zero_division:
  "near_candidate max_value n t a b c sols \<noteq> Inl ZeroDivisionError"
proof (cases "c \<le> 0 \<or> c > max_value")
  case True
  then show ?thesis by (auto simp: near_candidate_def)
next
  case False
  then have "c ^ n \<noteq> 0" by simp
  then have "fermat_relative_error a b c n \<noteq> Inl ZeroDivisionError"
    by (simp add: fermat_relative_error_zero_iff)
  with False show ?thesis
    by (cases "fermat_relative_error a b c n") (auto simp: near_candidate_def Let_def)
qed

text \<open>
  Claim C10.  Every record returned by \<^verbatim>\<open>find_near_solutions\<close> has \<open>a\<close>, \<open>b\<close> and \<open>c\<close>
  between 1 and \<open>max_value\<close>; a candidate \<open>c\<close> that is not positive or exceeds
  \<open>max_value\<close> is skipped, leaving the list as it was.
\<close>

theorem near_solutions_within_bounds:
  assumes "find_near_solutions fp max_value n t = Inr sols"
  shows "(\<forall>s\<in>set sols. 1 \<le> ns_a s \<and> ns_a s \<le> max_value
            \<and> 1 \<le> ns_b s \<and> ns_b s \<le> max_value
            \<and> 1 \<le> ns_c s \<and> ns_c s \<le> max_value)
         \<and> (\<forall>a b c acc. c \<le> 0 \<or> c > max_value \<longrightarrow>
               near_candidate max_value n t a b c acc = Inr acc)"
proof -
  have "1 \<le> ns_a s \<and> ns_a s \<le> max_value
            \<and> 1 \<le> ns_b s \<and> ns_b s \<le> max_value
            \<and> 1 \<le> ns_c s \<and> ns_c s \<le> max_value"
    if "s \<in> set sols" for s
  proof -
    from that obtain a b c rel where "a \<in> {1..max_value}" "b \<in> {1..max_value}"
      and "0 < c" "c \<le> max_value"
      and "s = \<lparr>ns_a = a, ns_b = b, ns_c = c, ns_error = fermat_difference a b c n,
                ns_relative_error = rel\<rparr>"
      unfolding find_near_solutions_mem [OF assms] by blast
    then show ?thesis by simp
  qed
  moreover have "near_candidate max_value n t a b c acc = Inr acc"
    if "c \<le> 0 \<or> c > max_value" for a b c acc
    using that by (auto simp: near_candidate_def)
  ultimately show ?thesis by blast
qed

theorem near_solutions_within_bounds_witness:
  "find_near_solutions exact_ops 2 2 (1 / 2)
     = Inr [\<lparr>ns_a = 1, ns_b = 1, ns_c = 2, ns_error = 2, ns_relative_error = 1 / 2\<rparr>,
            \<lparr>ns_a = 1, ns_b = 2, ns_c = 2, ns_error = 1, ns_relative_error = 1 / 4\<rparr>,
            \<lparr>ns_a = 2, ns_b = 1, ns_c = 2, ns_error = 1, ns_relative_error = 1 / 4\<rparr>]
   \<and> ns_c (hd (projr (find_near_solutions exact_ops 2 2 (1 / 2)))) \<le> 2
   \<and> near_candidate 2 2 (1 / 2) 2 2 3 [] = Inr []"
proof -
  have run: "find_near_solutions exact_ops 2 2 (1 / 2)
     = Inr [\<lparr>ns_a = 1, ns_b = 1, ns_c = 2, ns_error = 2, ns_relative_error = 1 / 2\<rparr>,
            \<lparr>ns_a = 1, ns_b = 2, ns_c = 2, ns_error = 1, ns_relative_error = 1 / 4\<rparr>,
            \<lparr>ns_a = 2, ns_b = 1, ns_c = 2, ns_error = 1, ns_relative_error = 1 / 4\<rparr>]"
    by code_simp
  from near_solutions_within_bounds [OF run]
  have "\<forall>s\<in>set (projr (find_near_solutions exact_ops 2 2 (1 / 2))). ns_c s \<le> 2"
    and skip: "\<forall>a b c acc. c \<le> 0 \<or> c > 2 \<longrightarrow>
               near_candidate 2 2 (1 / 2) a b c acc = Inr acc"
    unfolding run by simp_all
  then have "ns_c (hd (projr (find_near_solutions exact_ops 2 2 (1 / 2)))) \<le> 2"
    unfolding run by simp
  moreover from skip have "near_candidate 2 2 (1 / 2) 2 2 3 [] = Inr []"
    by simp
  ultimately show ?thesis using run by simp
qed

text \<open>
  Claim C6.  Every triple returned by \<^verbatim>\<open>find_near_solutions\<close> has a relative error, as
  \<^verbatim>\<open>fermat_relative_error\<close> computes it (the rounded double), of at most
  \<open>error_threshold\<close>; and the search keeps every candidate that passes: for a pair
  \<open>(a, b)\<close> of the grid, each of the two candidates \<open>c_low\<close> and \<open>c_low + 1\<close> that lies in
  \<open>1..max_value\<close> and passes the threshold is in the returned list, hence both are when
  both do.
\<close>

theorem near_solutions_inclusive_filter:
  assumes "find_near_solutions fp max_value n t = Inr sols"
  shows "(\<forall>s\<in>set sols.
            fermat_relative_error (ns_a s) (ns_b s) (ns_c s) n = Inr (ns_relative_error s)
            \<and> ns_relative_error s \<le> t)
         \<and> (\<forall>a b r c rel.
              1 \<le> a \<and> a \<le> max_value \<and> 1 \<le> b \<and> b \<le> max_value
              \<and> root_int fp (a ^ n + b ^ n) n = Inr r
              \<and> (c = int r \<or> c = int r + 1)
              \<and> 0 < c \<and> c \<le> max_value
              \<and> fermat_relative_error a b c n = Inr rel \<and> rel \<le> t
              \<longrightarrow> \<lparr>ns_a = a, ns_b = b, ns_c = c, ns_error = fermat_difference a b c n,
                     ns_relative_error = rel\<rparr> \<in> set sols)"
proof -
  have "fermat_relative_error (ns_a s) (ns_b s) (ns_c s) n = Inr (ns_relative_error s)
            \<and> ns_relative_error s \<le> t"
    if "s \<in> set sols" for s
  proof -
    from that obtain a b c rel where "fermat_relative_error a b c n = Inr rel" "rel \<le> t"
      and "s = \<lparr>ns_a = a, ns_b = b, ns_c = c, ns_error = fermat_difference a b c n,
                ns_relative_error = rel\<rparr>"
      unfolding find_near_solutions_mem [OF assms] by blast
    then show ?thesis by simp
  qed
  moreover have "\<lparr>ns_a = a, ns_b = b, ns_c = c, ns_error = fermat_difference a b c n,
                     ns_relative_error = rel\<rparr> \<in> set sols"
    if h: "1 \<le> a \<and> a \<le> max_value \<and> 1 \<le> b \<and> b \<le> max_value
              \<and> root_int fp (a ^ n + b ^ n) n = Inr r
              \<and> (c = int r \<or> c = int r + 1)
              \<and> 0 < c \<and> c \<le> max_value
              \<and> fermat_relative_error a b c n = Inr rel \<and> rel \<le> t"
    for a b r c rel
  proof -
    from h have "a \<in> {1..max_value}" and "b \<in> {1..max_value}" by simp_all
    with h show ?thesis
      unfolding find_near_solutions_mem [OF assms] by blast
  qed
  ultimately show ?thesis by blast
qed

theorem near_solutions_inclusive_filter_witness:
  "find_near_solutions exact_ops 2 2 1
     = Inr [\<lparr>ns_a = 1, ns_b = 1, ns_c = 1, ns_error = 1, ns_relative_error = 1\<rparr>,
            \<lparr>ns_a = 1, ns_b = 1, ns_c = 2, ns_error = 2, ns_relative_error = 1 / 2\<rparr>,
            \<lparr>ns_a = 1, ns_b = 2, ns_c = 2, ns_error = 1, ns_relative_error = 1 / 4\<rparr>,
            \<lparr>ns_a = 2, ns_b = 1, ns_c = 2, ns_error = 1, ns_relative_error = 1 / 4\<rparr>,
            \<lparr>ns_a = 2, ns_b = 2, ns_c = 2, ns_error = 4, ns_relative_error = 1\<rparr>]
   \<and> root_int exact_ops 2 2 = Inr 1
   \<and> \<lparr>ns_a = 1, ns_b = 1, ns_c = 1, ns_error = fermat_difference 1 1 1 2,
        ns_relative_error = 1\<rparr> \<in> set (projr (find_near_solutions exact_ops 2 2 1))
   \<and> \<lparr>ns_a = 1, ns_b = 1, ns_c = 2, ns_error = fermat_difference 1 1 2 2,
        ns_relative_error = 1 / 2\<rparr> \<in> set (projr (find_near_solutions exact_ops 2 2 1))"
proof -
  have run: "find_near_solutions exact_ops 2 2 1
     = Inr [\<lparr>ns_a = 1, ns_b = 1, ns_c = 1, ns_error = 1, ns_relative_error = 1\<rparr>,
            \<lparr>ns_a = 1, ns_b = 1, ns_c = 2, ns_error = 2, ns_relative_error = 1 / 2\<rparr>,
            \<lparr>ns_a = 1, ns_b = 2, ns_c = 2, ns_error = 1, ns_relative_error = 1 / 4\<rparr>,
            \<lparr>ns_a = 2, ns_b = 1, ns_c = 2, ns_error = 1, ns_relative_error = 1 / 4\<rparr>,
            \<lparr>ns_a = 2, ns_b = 2, ns_c = 2, ns_error = 4, ns_relative_error = 1\<rparr>]"
    by code_simp
  have root: "root_int exact_ops 2 2 = Inr 1"
    by code_simp
  have low: "fermat_relative_error 1 1 1 2 = Inr 1"
    and high: "fermat_relative_error 1 1 2 2 = Inr (1 / 2)"
    by code_simp+
  let ?sols = "[\<lparr>ns_a = 1, ns_b = 1, ns_c = 1, ns_error = 1, ns_relative_error = 1\<rparr>,
            \<lparr>ns_a = 1, ns_b = 1, ns_c = 2, ns_error = 2, ns_relative_error = 1 / 2\<rparr>,
            \<lparr>ns_a = 1, ns_b = 2, ns_c = 2, ns_error = 1, ns_relative_error = 1 / 4\<rparr>,
            \<lparr>ns_a = 2, ns_b = 1, ns_c = 2, ns_error = 1, ns_relative_error = 1 / 4\<rparr>,
            \<lparr>ns_a = 2, ns_b = 2, ns_c = 2, ns_error = 4, ns_relative_error = 1\<rparr>]"
  from near_solutions_inclusive_filter [OF run]
  have keep: "\<And>a b r c rel.
              1 \<le> a \<and> a \<le> 2 \<and> 1 \<le> b \<and> b \<le> 2
              \<and> root_int exact_ops (a ^ 2 + b ^ 2) 2 = Inr r
              \<and> (c = int r \<or> c = int r + 1)
              \<and> 0 < c \<and> c \<le> 2
              \<and> fermat_relative_error a b c 2 = Inr rel \<and> rel \<le> 1
              \<Longrightarrow> \<lparr>ns_a = a, ns_b = b, ns_c = c, ns_error = fermat_difference a b c 2,
                     ns_relative_error = rel\<rparr> \<in> set ?sols"
    by blast
  have "\<lparr>ns_a = 1, ns_b = 1, ns_c = 1, ns_error = fermat_difference 1 1 1 2,
        ns_relative_error = 1\<rparr> \<in> set ?sols"
    by (rule keep [where r = 1]) (simp add: root low)
  moreover have "\<lparr>ns_a = 1, ns_b = 1, ns_c = 2, ns_error = fermat_difference 1 1 2 2,
        ns_relative_error = 1 / 2\<rparr> \<in> set ?sols"
    by (rule keep [where r = 1]) (simp add: root high)
  ultimately show ?thesis unfolding run using run root by simp
qed

text \<open>
  Claim C7.  Threshold monotonicity: for \<open>t1 \<le> t2\<close> and the same \<open>max_value\<close> and \<open>n\<close>, when
  the search with \<open>t1\<close> returns, so does the search with \<open>t2\<close>, and it contains every
  triple of the former.
\<close>

theorem near_solutions_threshold_monotone:
  assumes "t1 \<le> t2" and "find_near_solutions fp max_value n t1 = Inr sols1"
  shows "\<exists>sols2. find_near_solutions fp max_value n t2 = Inr sols2 \<and> set sols1 \<subseteq> set sols2"
proof -
  from assms(2) have "\<exists>sols. find_near_solutions fp max_value n t1 = Inr sols" ..
  then have "\<exists>sols. find_near_solutions fp max_value n t2 = Inr sols"
    unfolding find_near_solutions_returns_iff .
  then obtain sols2 where s2: "find_near_solutions fp max_value n t2 = Inr sols2" ..
  have "set sols1 \<subseteq> set sols2"
  proof
    fix s assume "s \<in> set sols1"
    then obtain a b r c rel where "a \<in> {1..max_value}" "b \<in> {1..max_value}"
      and "root_int fp (a ^ n + b ^ n) n = Inr r" "c = int r \<or> c = int r + 1"
      and "0 < c" "c \<le> max_value"
      and "fermat_relative_error a b c n = Inr rel" "rel \<le> t1"
      and "s = \<lparr>ns_a = a, ns_b = b, ns_c = c, ns_error = fermat_difference a b c n,
                ns_relative_error = rel\<rparr>"
      unfolding find_near_solutions_mem [OF assms(2)] by blast
    moreover from this assms(1) have "rel \<le> t2" by simp
    ultimately show "s \<in> set sols2"
      unfolding find_near_solutions_mem [OF s2] by blast
  qed
  with s2 show ?thesis by blast
qed

theorem near_solutions_threshold_monotone_witness:
  "(1 / 10 :: rat) \<le> 1 / 2
   \<and> find_near_solutions exact_ops 4 2 (1 / 10)
       = Inr [\<lparr>ns_a = 1, ns_b = 4, ns_c = 4, ns_error = 1, ns_relative_error = 1 / 16\<rparr>,
              \<lparr>ns_a = 4, ns_b = 1, ns_c = 4, ns_error = 1, ns_relative_error = 1 / 16\<rparr>]
   \<and> (\<exists>sols2. find_near_solutions exact_ops 4 2 (1 / 2) = Inr sols2
        \<and> set [\<lparr>ns_a = 1, ns_b = 4, ns_c = 4, ns_error = 1, ns_relative_error = 1 / 16\<rparr>,
                \<lparr>ns_a = 4, ns_b = 1, ns_c = 4, ns_error = 1, ns_relative_error = 1 / 16\<rparr>]
            \<subseteq> set sols2)"
proof -
  have le: "(1 / 10 :: rat) \<le> 1 / 2" by simp
  have run: "find_near_solutions exact_ops 4 2 (1 / 10)
       = Inr [\<lparr>ns_a = 1, ns_b = 4, ns_c = 4, ns_error = 1, ns_relative_error = 1 / 16\<rparr>,
              \<lparr>ns_a = 4, ns_b = 1, ns_c = 4, ns_error = 1, ns_relative_error = 1 / 16\<rparr>]"
    by code_simp
  from near_solutions_threshold_monotone [OF le run] le run show ?thesis by blast
qed

section \<open>The batch generator\<close>

subsection \<open>The grid loop\<close>

lemma select_c_pos: "0 \<le> c_low \<Longrightarrow> 0 < select_c a b c_low n"
  by (simp add: select_c_def)

lemma select_c_lower_error:
  assumes "1 \<le> a" and "1 \<le> b" and "0 < n" and "0 \<le> c_low"
  shows "select_c a b c_low n =
           (if fermat_difference a b c_low n \<le> fermat_difference a b (c_low + 1) n
            then c_low else c_low + 1)"
proof (cases "c_low = 0")
  case True
  from assms(1,2) have "1 \<le> a ^ n" and "1 \<le> b ^ n" by simp_all
  then have "fermat_difference a b 1 n < fermat_difference a b 0 n"
    using assms(3) by (simp add: fermat_difference_def power_0_left)
  with True show ?thesis by (simp add: select_c_def)
next
  case False
  with assms(4) show ?thesis by (simp add: select_c_def)
qed

lemma keep_case_extend:
  "keep_case n a b c err rel data = data @ keep_case n a b c err rel []"
  by (simp add: keep_case_def)

lemma grid_body_rows:
  "grid_body fp n (a, b) data =
     extend data
       (if n = 0 then Inl ZeroDivisionError
        else case root_int fp (a ^ n + b ^ n) n of
               Inl e \<Rightarrow> Inl e
             | Inr r \<Rightarrow>
                 (case fermat_relative_error a b (select_c a b (int r) n) n of
                    Inl e \<Rightarrow> Inl e
                  | Inr rel \<Rightarrow> Inr (grid_rows n a b (int r) rel)))"
proof (cases "n = 0")
  case True
  then show ?thesis by (simp add: grid_body_def)
next
  case False
  show ?thesis
  proof (cases "root_int fp (a ^ n + b ^ n) n")
    case (Inl e)
    with False show ?thesis by (simp add: grid_body_def)
  next
    case (Inr r)
    show ?thesis
    proof (cases "fermat_difference a b (int r) n \<le> fermat_difference a b (int r + 1) n \<and> 0 < int r")
      case True
      then have sel: "select_c a b (int r) n = int r" by (simp add: select_c_def)
      from True False Inr show ?thesis
        using keep_case_extend [of n a b "int r" "fermat_difference a b (int r) n" _ data]
        by (cases "fermat_relative_error a b (int r) n")
           (simp_all add: grid_body_def Let_def grid_rows_def sel)
    next
      case no: False
      then have sel: "select_c a b (int r) n = int r + 1" by (auto simp: select_c_def)
      from no False Inr show ?thesis
        using keep_case_extend [of n a b "int r + 1" "fermat_difference a b (int r + 1) n" _ data]
        by (cases "fermat_relative_error a b (int r + 1) n")
           (auto simp add: grid_body_def Let_def grid_rows_def sel)
    qed
  qed
qed

lemma grid_body_extend: "grid_body fp n ab data = extend data (grid_body fp n ab [])"
  by (cases ab) (simp add: grid_body_rows [of _ _ _ _ data] grid_body_rows [of _ _ _ _ "[]"])

lemma grid_body_Inr_iff:
  "grid_body fp n (a, b) [] = Inr ys \<longleftrightarrow>
     n \<noteq> 0 \<and> (\<exists>r rel. root_int fp (a ^ n + b ^ n) n = Inr r
        \<and> fermat_relative_error a b (select_c a b (int r) n) n = Inr rel
        \<and> ys = grid_rows n a b (int r) rel)"
  by (auto simp: grid_body_rows [of _ _ _ _ "[]"] split: sum.splits)

lemma grid_pass_Inr_iff:
  "grid_pass fp max_value n = Inr grid \<longleftrightarrow>
     (\<forall>ab\<in>set (List.product [1..min max_value 30] [1..min max_value 30]).
         \<exists>ys. grid_body fp n ab [] = Inr ys)
     \<and> grid = concat (map (\<lambda>ab. projr (grid_body fp n ab []))
                 (List.product [1..min max_value 30] [1..min max_value 30]))"
  unfolding grid_pass_def Let_def
  by (rule for_each_Inr_iff) (rule grid_body_extend)

lemma grid_pass_mem:
  assumes "grid_pass fp max_value n = Inr grid"
  shows "r \<in> set grid \<longleftrightarrow>
     (\<exists>a\<in>{1..min max_value 30}. \<exists>b\<in>{1..min max_value 30}. \<exists>k rel.
        root_int fp (a ^ n + b ^ n) n = Inr k
        \<and> fermat_relative_error a b (select_c a b (int k) n) n = Inr rel
        \<and> r \<in> set (grid_rows n a b (int k) rel))"
proof -
  let ?L = "min max_value 30"
  from assms have ok: "\<forall>ab\<in>set (List.product [1..?L] [1..?L]). \<exists>ys. grid_body fp n ab [] = Inr ys"
    and grid: "grid = concat (map (\<lambda>ab. projr (grid_body fp n ab [])) (List.product [1..?L] [1..?L]))"
    by (simp_all add: grid_pass_Inr_iff)
  have pair: "r \<in> set (projr (grid_body fp n (a, b) [])) \<longleftrightarrow>
      (\<exists>k rel. root_int fp (a ^ n + b ^ n) n = Inr k
         \<and> fermat_relative_error a b (select_c a b (int k) n) n = Inr rel
         \<and> r \<in> set (grid_rows n a b (int k) rel))"
    if "a \<in> {1..?L}" and "b \<in> {1..?L}" for a b
  proof -
    from that have "(a, b) \<in> set (List.product [1..?L] [1..?L])" by simp
    with ok obtain ys where ys: "grid_body fp n (a, b) [] = Inr ys" by blast
    then obtain k rel where k: "root_int fp (a ^ n + b ^ n) n = Inr k"
      and rel: "fermat_relative_error a b (select_c a b (int k) n) n = Inr rel"
      and ys_eq: "ys = grid_rows n a b (int k) rel"
      by (auto simp: grid_body_Inr_iff)
    show ?thesis by (auto simp: ys k rel ys_eq)
  qed
  have "r \<in> set grid \<longleftrightarrow>
      (\<exists>a\<in>{1..?L}. \<exists>b\<in>{1..?L}. r \<in> set (projr (grid_body fp n (a, b) [])))"
    by (auto simp: grid)
  also have "\<dots> \<longleftrightarrow> (\<exists>a\<in>{1..?L}. \<exists>b\<in>{1..?L}. \<exists>k rel.
        root_int fp (a ^ n + b ^ n) n = Inr k
        \<and> fermat_relative_error a b (select_c a b (int k) n) n = Inr rel
        \<and> r \<in> set (grid_rows n a b (int k) rel))"
    using pair by (intro bex_cong refl) 
  finally show ?thesis .
qed

lemma grid_pass_roots:
  assumes "grid_pass fp max_value n = Inr grid"
    and "a \<in> {1..min max_value 30}" and "b \<in> {1..min max_value 30}"
  shows "0 < n \<and> (\<exists>k rel. root_int fp (a ^ n + b ^ n) n = Inr k
           \<and> fermat_relative_error a b (select_c a b (int k) n) n = Inr rel)"
proof -
  from assms(2,3) have "(a, b) \<in> set (List.product [1..min max_value 30] [1..min max_value 30])"
    by simp
  with assms(1) obtain ys where "grid_body fp n (a, b) [] = Inr ys"
    unfolding grid_pass_Inr_iff by blast
  then show ?thesis by (auto simp: grid_body_Inr_iff)
qed

lemma grid_rows_mem:
  "r \<in> set (grid_rows n a b c_low rel) \<longleftrightarrow>
     \<not> (n > 2 \<and> rel > float_tenth)
     \<and> r = \<lparr>tc_a = a, tc_b = b, tc_c = select_c a b c_low n,
             tc_error = fermat_difference a b (select_c a b c_low n) n,
             tc_relative_error = rel, tc_n = n\<rparr>"
  by (auto simp: grid_rows_def keep_case_def)

lemma grid_rows_key: "r \<in> set (grid_rows n a b c_low rel) \<Longrightarrow> key_of r = (a, b)"
  by (auto simp: grid_rows_def keep_case_def key_of_def split: if_splits)

lemma grid_rows_distinct: "distinct (map key (grid_rows n a b c_low rel))"
  by (simp add: grid_rows_def keep_case_def)

lemma grid_pass_distinct:
  assumes "grid_pass fp max_value n = Inr grid"
  shows "distinct (map key_of grid)"
proof -
  let ?L = "min max_value 30"
  let ?f = "\<lambda>ab. projr (grid_body fp n ab [])"
  from assms have ok: "\<forall>ab\<in>set (List.product [1..?L] [1..?L]). \<exists>ys. grid_body fp n ab [] = Inr ys"
    and grid: "grid = concat (map ?f (List.product [1..?L] [1..?L]))"
    by (simp_all add: grid_pass_Inr_iff)
  have rows: "\<exists>k rel. ?f ab = grid_rows n (fst ab) (snd ab) k rel"
    if "ab \<in> set (List.product [1..?L] [1..?L])" for ab
  proof -
    obtain a b where ab: "ab = (a, b)" by (cases ab)
    from ok that obtain ys where ys: "grid_body fp n ab [] = Inr ys" by blast
    then obtain k rel where "ys = grid_rows n a b (int k) rel"
      unfolding ab by (auto simp: grid_body_Inr_iff)
    with ys show ?thesis by (auto simp: ab)
  qed
  have "distinct (map key_of (concat (map ?f (List.product [1..?L] [1..?L]))))"
  proof (rule distinct_map_concat [where g = id])
    show "distinct (List.product [1..?L] [1..?L])"
      by (simp add: distinct_product)
  next
    fix ab assume "ab \<in> set (List.product [1..?L] [1..?L])"
    from rows [OF this] obtain k rel where "?f ab = grid_rows n (fst ab) (snd ab) k rel"
      by blast
    then show "distinct (map key_of (?f ab))"
      by (simp add: grid_rows_distinct)
  next
    fix ab r assume "ab \<in> set (List.product [1..?L] [1..?L])" and r: "r \<in> set (?f ab)"
    from rows [OF this(1)] obtain k rel where "?f ab = grid_rows n (fst ab) (snd ab) k rel"
      by blast
    with r show "id (key_of r) = ab"
      by (simp add: grid_rows_key)
  qed
  then show ?thesis by (simp add: grid)
qed


lemma grid_body_no_zero_division:
  assumes "0 < n" and "root_int fp (a ^ n + b ^ n) n = Inr k"
  shows "grid_body fp n (a, b) data \<noteq> Inl ZeroDivisionError"
proof -
  let ?c = "select_c a b (int k) n"
  have "0 < ?c" by (simp add: select_c_pos)
  then have "?c ^ n \<noteq> 0" by simp
  then have "fermat_relative_error a b ?c n \<noteq> Inl ZeroDivisionError"
    by (simp add: fermat_relative_error_zero_iff)
  with assms show ?thesis
    by (cases "fermat_relative_error a b ?c n") (auto simp: grid_body_rows extend_def)
qed

subsection \<open>The enumeration for \<open>n = 2\<close>\<close>

lemma exact_body_rows:
  "exact_body fp max_value n a b data =
     extend data
       (case sqrt_int fp (a ^ 2 + b ^ 2) of
          Inl e \<Rightarrow> Inl e
        | Inr r \<Rightarrow> Inr (exact_rows max_value n a b (int r)))"
  by (auto simp: exact_body_def exact_rows_def Let_def split: sum.splits)

lemma exact_body_extend:
  "exact_body fp max_value n a b data = extend data (exact_body fp max_value n a b [])"
  by (simp add: exact_body_rows [of _ _ _ _ _ data] exact_body_rows [of _ _ _ _ _ "[]"])

lemma exact_body_Inr_iff:
  "exact_body fp max_value n a b [] = Inr ys \<longleftrightarrow>
     (\<exists>r. sqrt_int fp (a ^ 2 + b ^ 2) = Inr r \<and> ys = exact_rows max_value n a b (int r))"
  by (auto simp: exact_body_rows [of _ _ _ _ _ "[]"] split: sum.splits)

lemma exact_inner_extend:
  "for_each bs (exact_body fp max_value n a) s
     = extend s (for_each bs (exact_body fp max_value n a) [])"
  by (rule for_each_extend) (rule exact_body_extend)

lemma exact_inner_Inr_iff:
  "for_each bs (exact_body fp max_value n a) [] = Inr zs \<longleftrightarrow>
     (\<forall>b\<in>set bs. \<exists>ys. exact_body fp max_value n a b [] = Inr ys)
     \<and> zs = concat (map (\<lambda>b. projr (exact_body fp max_value n a b [])) bs)"
  by (rule for_each_Inr_iff) (rule exact_body_extend)

lemma exact_pass_extend:
  "exact_pass fp max_value n data = extend data (exact_pass fp max_value n [])"
  unfolding exact_pass_def
  by (rule for_each_extend) (rule exact_inner_extend)

lemma exact_pass_Inr_iff:
  "exact_pass fp max_value n [] = Inr ex \<longleftrightarrow>
     (\<forall>a\<in>set [1..max_value]. \<exists>zs. for_each [a..max_value] (exact_body fp max_value n a) [] = Inr zs)
     \<and> ex = concat (map (\<lambda>a. projr (for_each [a..max_value] (exact_body fp max_value n a) []))
               [1..max_value])"
  unfolding exact_pass_def
  by (rule for_each_Inr_iff) (rule exact_inner_extend)

lemma exact_inner_rows:
  assumes "for_each [a..max_value] (exact_body fp max_value n a) [] = Inr zs"
  shows "zs = concat (map (\<lambda>b. exact_rows max_value n a b
                 (int (projr (sqrt_int fp (a ^ 2 + b ^ 2))))) [a..max_value])"
    and "\<forall>b\<in>{a..max_value}. \<exists>k. sqrt_int fp (a ^ 2 + b ^ 2) = Inr k"
proof -
  from assms have ok: "\<forall>b\<in>set [a..max_value]. \<exists>ys. exact_body fp max_value n a b [] = Inr ys"
    and zs: "zs = concat (map (\<lambda>b. projr (exact_body fp max_value n a b [])) [a..max_value])"
    by (simp_all add: exact_inner_Inr_iff)
  from ok show roots: "\<forall>b\<in>{a..max_value}. \<exists>k. sqrt_int fp (a ^ 2 + b ^ 2) = Inr k"
    by (auto simp: exact_body_Inr_iff)
  have "map (\<lambda>b. projr (exact_body fp max_value n a b [])) [a..max_value]
      = map (\<lambda>b. exact_rows max_value n a b (int (projr (sqrt_int fp (a ^ 2 + b ^ 2)))))
          [a..max_value]"
  proof (rule map_cong [OF refl])
    fix b assume "b \<in> set [a..max_value]"
    then have "b \<in> {a..max_value}" by simp
    with roots obtain k where k: "sqrt_int fp (a ^ 2 + b ^ 2) = Inr k" by blast
    show "projr (exact_body fp max_value n a b [])
        = exact_rows max_value n a b (int (projr (sqrt_int fp (a ^ 2 + b ^ 2))))"
      by (simp add: exact_body_rows [of _ _ _ _ _ "[]"] k)
  qed
  with zs show "zs = concat (map (\<lambda>b. exact_rows max_value n a b
                 (int (projr (sqrt_int fp (a ^ 2 + b ^ 2))))) [a..max_value])"
    by simp
qed

lemma exact_pass_rows:
  assumes "exact_pass fp max_value n [] = Inr ex"
  shows "ex = concat (map (\<lambda>a. concat (map (\<lambda>b. exact_rows max_value n a b
                 (int (projr (sqrt_int fp (a ^ 2 + b ^ 2))))) [a..max_value])) [1..max_value])"
    and "\<forall>a\<in>{1..max_value}. \<forall>b\<in>{a..max_value}. \<exists>k. sqrt_int fp (a ^ 2 + b ^ 2) = Inr k"
proof -
  from assms have ok: "\<forall>a\<in>set [1..max_value]. \<exists>zs.
      for_each [a..max_value] (exact_body fp max_value n a) [] = Inr zs"
    and ex: "ex = concat (map (\<lambda>a. projr (for_each [a..max_value] (exact_body fp max_value n a) []))
               [1..max_value])"
    by (simp_all add: exact_pass_Inr_iff)
  show "\<forall>a\<in>{1..max_value}. \<forall>b\<in>{a..max_value}. \<exists>k. sqrt_int fp (a ^ 2 + b ^ 2) = Inr k"
  proof
    fix a assume "a \<in> {1..max_value}"
    then have "a \<in> set [1..max_value]" by simp
    with ok obtain zs where "for_each [a..max_value] (exact_body fp max_value n a) [] = Inr zs"
      by blast
    then show "\<forall>b\<in>{a..max_value}. \<exists>k. sqrt_int fp (a ^ 2 + b ^ 2) = Inr k"
      by (rule exact_inner_rows(2))
  qed
  have "map (\<lambda>a. projr (for_each [a..max_value] (exact_body fp max_value n a) [])) [1..max_value]
      = map (\<lambda>a. concat (map (\<lambda>b. exact_rows max_value n a b
                 (int (projr (sqrt_int fp (a ^ 2 + b ^ 2))))) [a..max_value])) [1..max_value]"
  proof (rule map_cong [OF refl])
    fix a assume "a \<in> set [1..max_value]"
    with ok obtain zs where zs: "for_each [a..max_value] (exact_body fp max_value n a) [] = Inr zs"
      by blast
    from exact_inner_rows(1) [OF zs] zs
    show "projr (for_each [a..max_value] (exact_body fp max_value n a) [])
        = concat (map (\<lambda>b. exact_rows max_value n a b
                 (int (projr (sqrt_int fp (a ^ 2 + b ^ 2))))) [a..max_value])"
      by simp
  qed
  with ex show "ex = concat (map (\<lambda>a. concat (map (\<lambda>b. exact_rows max_value n a b
                 (int (projr (sqrt_int fp (a ^ 2 + b ^ 2))))) [a..max_value])) [1..max_value])"
    by simp
qed

lemma exact_pass_mem:
  assumes "exact_pass fp max_value n [] = Inr ex"
  shows "r \<in> set ex \<longleftrightarrow>
     (\<exists>a\<in>{1..max_value}. \<exists>b\<in>{a..max_value}. \<exists>k.
        sqrt_int fp (a ^ 2 + b ^ 2) = Inr k \<and> r \<in> set (exact_rows max_value n a b (int k)))"
proof -
  have "r \<in> set ex \<longleftrightarrow> (\<exists>a\<in>{1..max_value}. \<exists>b\<in>{a..max_value}.
      r \<in> set (exact_rows max_value n a b (int (projr (sqrt_int fp (a ^ 2 + b ^ 2))))))"
    unfolding exact_pass_rows(1) [OF assms] by auto
  also have "\<dots> \<longleftrightarrow> (\<exists>a\<in>{1..max_value}. \<exists>b\<in>{a..max_value}. \<exists>k.
        sqrt_int fp (a ^ 2 + b ^ 2) = Inr k \<and> r \<in> set (exact_rows max_value n a b (int k)))"
  proof (intro bex_cong refl)
    fix a b assume "a \<in> {1..max_value}" "b \<in> {a..max_value}"
    with exact_pass_rows(2) [OF assms] obtain k where "sqrt_int fp (a ^ 2 + b ^ 2) = Inr k"
      by blast
    then show "r \<in> set (exact_rows max_value n a b (int (projr (sqrt_int fp (a ^ 2 + b ^ 2)))))
      \<longleftrightarrow> (\<exists>k. sqrt_int fp (a ^ 2 + b ^ 2) = Inr k \<and> r \<in> set (exact_rows max_value n a b (int k)))"
      by auto
  qed
  finally show ?thesis .
qed

lemma exact_rows_mem:
  "r \<in> set (exact_rows max_value n a b c) \<longleftrightarrow>
     c ^ 2 = a ^ 2 + b ^ 2 \<and> c \<le> max_value
     \<and> r = \<lparr>tc_a = a, tc_b = b, tc_c = c, tc_error = 0, tc_relative_error = 0, tc_n = n\<rparr>"
  by (auto simp: exact_rows_def)

lemma exact_rows_key: "r \<in> set (exact_rows max_value n a b c) \<Longrightarrow> key_of r = (a, b)"
  by (auto simp: exact_rows_def key_of_def split: if_splits)

lemma exact_rows_distinct: "distinct (map key (exact_rows max_value n a b c))"
  by (simp add: exact_rows_def)

lemma exact_pass_distinct:
  assumes "exact_pass fp max_value n [] = Inr ex"
  shows "distinct (map key_of ex)"
  unfolding exact_pass_rows(1) [OF assms]
proof (rule distinct_map_concat [where g = fst])
  show "distinct [1..max_value]" by simp
next
  fix a
  show "distinct (map key_of (concat (map (\<lambda>b. exact_rows max_value n a b
                 (int (projr (sqrt_int fp (a ^ 2 + b ^ 2))))) [a..max_value])))"
  proof (rule distinct_map_concat [where g = snd])
    show "distinct [a..max_value]" by simp
  next
    fix b
    show "distinct (map key_of (exact_rows max_value n a b
                 (int (projr (sqrt_int fp (a ^ 2 + b ^ 2))))))"
      by (rule exact_rows_distinct)
  next
    fix b r assume "r \<in> set (exact_rows max_value n a b
                 (int (projr (sqrt_int fp (a ^ 2 + b ^ 2)))))"
    then show "snd (key_of r) = b" by (simp add: exact_rows_key)
  qed
next
  fix a r assume "r \<in> set (concat (map (\<lambda>b. exact_rows max_value n a b
                 (int (projr (sqrt_int fp (a ^ 2 + b ^ 2))))) [a..max_value]))"
  then show "fst (key_of r) = a" by (auto simp: exact_rows_key)
qed

lemma hypotenuse_greater:
  fixes a b c :: int
  assumes "1 \<le> a" and "a \<le> b" and "0 \<le> c" and "c ^ 2 = a ^ 2 + b ^ 2"
  shows "b < c"
proof (rule ccontr)
  assume "\<not> b < c"
  then have "c \<le> b" by simp
  then have "c ^ 2 \<le> b ^ 2" using assms(3) by (rule power_mono)
  moreover from assms(1) have "0 < a ^ 2" by simp
  ultimately show False using assms(4) by simp
qed

subsection \<open>The result tables\<close>

lemma generate_for_n_parts:
  "generate_for_n fp max_value n =
     (case grid_pass fp max_value n of
        Inl e \<Rightarrow> Inl e
      | Inr grid \<Rightarrow> extend grid (exact_part fp max_value n))"
proof (cases "grid_pass fp max_value n")
  case (Inl e)
  then show ?thesis by (simp add: generate_for_n_def)
next
  case (Inr grid)
  then show ?thesis
    using exact_pass_extend [of fp max_value n grid]
    by (auto simp: generate_for_n_def exact_part_def)
qed

lemma generate_for_n_Inr_iff:
  "generate_for_n fp max_value n = Inr rows \<longleftrightarrow>
     (\<exists>grid ex. grid_pass fp max_value n = Inr grid \<and> exact_part fp max_value n = Inr ex
        \<and> rows = grid @ ex)"
  by (auto simp: generate_for_n_parts extend_def split: sum.splits)

lemma generate_for_2_parts:
  assumes "generate_for_n fp max_value 2 = Inr rows" and "grid_pass fp max_value 2 = Inr grid"
  shows "\<exists>ex. exact_pass fp max_value 2 [] = Inr ex \<and> rows = grid @ ex"
  using assms by (auto simp: generate_for_n_Inr_iff exact_part_def)



lemma results_loop:
  "for_each ns (\<lambda>n results. case g n of Inl e \<Rightarrow> Inl e
                               | Inr data \<Rightarrow> Inr (results(n \<mapsto> data))) res0 = Inr results
   \<longleftrightarrow> (\<forall>n\<in>set ns. \<exists>data. g n = Inr data)
       \<and> results = (\<lambda>n. if n \<in> set ns then Some (projr (g n)) else res0 n)"
proof (induction ns arbitrary: res0)
  case Nil
  show ?case by auto
next
  case (Cons m ns)
  show ?case
  proof (cases "g m")
    case (Inl e)
    then show ?thesis by auto
  next
    case (Inr data)
    let ?body = "\<lambda>n results. case g n of Inl e \<Rightarrow> Inl e
                               | Inr data \<Rightarrow> Inr (results(n \<mapsto> data))"
    have step: "for_each (m # ns) ?body res0 = for_each ns ?body (res0(m \<mapsto> data))"
      using Inr by simp
    have fn: "(\<lambda>n. if n \<in> set ns then Some (projr (g n)) else (res0(m \<mapsto> data)) n)
        = (\<lambda>n. if n \<in> set (m # ns) then Some (projr (g n)) else res0 n)"
      using Inr by auto
    show ?thesis
      unfolding step Cons.IH [of "res0(m \<mapsto> data)"] fn using Inr by simp
  qed
qed

lemma generate_test_cases_Inr_iff:
  "generate_test_cases fp max_value n_values = Inr results \<longleftrightarrow>
     (\<forall>n\<in>set n_values. \<exists>data. generate_for_n fp max_value n = Inr data)
     \<and> results = (\<lambda>n. if n \<in> set n_values
                        then Some (projr (generate_for_n fp max_value n)) else None)"
  unfolding generate_test_cases_def by (rule results_loop)

lemma generate_test_cases_lookup:
  assumes "generate_test_cases fp max_value n_values = Inr results"
    and "results n = Some rows"
  shows "n \<in> set n_values \<and> generate_for_n fp max_value n = Inr rows"
proof -
  from assms(1) have ok: "\<forall>n\<in>set n_values. \<exists>data. generate_for_n fp max_value n = Inr data"
    and res: "results = (\<lambda>n. if n \<in> set n_values
                        then Some (projr (generate_for_n fp max_value n)) else None)"
    by (simp_all add: generate_test_cases_Inr_iff)
  from assms(2) res have n: "n \<in> set n_values" by (auto split: if_splits)
  with ok obtain data where "generate_for_n fp max_value n = Inr data" by blast
  with assms(2) res n show ?thesis by simp
qed

subsection \<open>Runs on small inputs\<close>

lemma run_3_3:
  "generate_test_cases exact_ops 3 [3]
     = Inr [3 \<mapsto> [\<lparr>tc_a = 1, tc_b = 3, tc_c = 3, tc_error = 1,
                        tc_relative_error = round_double (1 / 27), tc_n = 3\<rparr>,
                     \<lparr>tc_a = 3, tc_b = 1, tc_c = 3, tc_error = 1,
                        tc_relative_error = round_double (1 / 27), tc_n = 3\<rparr>]]"
proof -
  have "generate_for_n exact_ops 3 3
     = Inr [\<lparr>tc_a = 1, tc_b = 3, tc_c = 3, tc_error = 1,
                        tc_relative_error = round_double (1 / 27), tc_n = 3\<rparr>,
                     \<lparr>tc_a = 3, tc_b = 1, tc_c = 3, tc_error = 1,
                        tc_relative_error = round_double (1 / 27), tc_n = 3\<rparr>]"
    by code_simp
  then show ?thesis by (simp add: generate_test_cases_def)
qed

lemma run_2_2:
  "generate_test_cases exact_ops 2 [2]
     = Inr [2 \<mapsto> [\<lparr>tc_a = 1, tc_b = 1, tc_c = 1, tc_error = 1,
                        tc_relative_error = 1, tc_n = 2\<rparr>,
                     \<lparr>tc_a = 1, tc_b = 2, tc_c = 2, tc_error = 1,
                        tc_relative_error = 1 / 4, tc_n = 2\<rparr>,
                     \<lparr>tc_a = 2, tc_b = 1, tc_c = 2, tc_error = 1,
                        tc_relative_error = 1 / 4, tc_n = 2\<rparr>,
                     \<lparr>tc_a = 2, tc_b = 2, tc_c = 3, tc_error = 1,
                        tc_relative_error = round_double (1 / 9), tc_n = 2\<rparr>]]"
proof -
  have "generate_for_n exact_ops 2 2
     = Inr [\<lparr>tc_a = 1, tc_b = 1, tc_c = 1, tc_error = 1,
                        tc_relative_error = 1, tc_n = 2\<rparr>,
                     \<lparr>tc_a = 1, tc_b = 2, tc_c = 2, tc_error = 1,
                        tc_relative_error = 1 / 4, tc_n = 2\<rparr>,
                     \<lparr>tc_a = 2, tc_b = 1, tc_c = 2, tc_error = 1,
                        tc_relative_error = 1 / 4, tc_n = 2\<rparr>,
                     \<lparr>tc_a = 2, tc_b = 2, tc_c = 3, tc_error = 1,
                        tc_relative_error = round_double (1 / 9), tc_n = 2\<rparr>]"
    by code_simp
  then show ?thesis by (simp add: generate_test_cases_def)
qed

lemma run_5_2:
  "generate_test_cases exact_ops 5 [2] = Inr [2 \<mapsto> projr (generate_for_n exact_ops 5 2)]"
  "grid_pass exact_ops 5 2 = Inr (projr (grid_pass exact_ops 5 2))"
proof -
  have "\<not> isl (generate_for_n exact_ops 5 2)" by code_simp
  then obtain rows where "generate_for_n exact_ops 5 2 = Inr rows"
    by (cases "generate_for_n exact_ops 5 2") simp_all
  then show "generate_test_cases exact_ops 5 [2] = Inr [2 \<mapsto> projr (generate_for_n exact_ops 5 2)]"
    by (simp add: generate_test_cases_def)
  have "\<not> isl (grid_pass exact_ops 5 2)" by code_simp
  then obtain grid where "grid_pass exact_ops 5 2 = Inr grid"
    by (cases "grid_pass exact_ops 5 2") simp_all
  then show "grid_pass exact_ops 5 2 = Inr (projr (grid_pass exact_ops 5 2))"
    by simp
qed

subsection \<open>Properties\<close>

text \<open>
  Claim C1.  In a table produced by \<^verbatim>\<open>generate_test_cases\<close> for an exponent \<open>n > 2\<close>,
  every row carries the relative error of its triple, as \<^verbatim>\<open>fermat_relative_error\<close>
  returns it, and it lies between 0 and the threshold \<^verbatim>\<open>0.1\<close>, the double \<open>float_tenth\<close>
  that the code compares with.  For \<open>n = 2\<close> the grid loop applies no threshold: every
  pair \<open>(a, b)\<close> of the grid has its row among the grid rows, whatever its relative error.
\<close>

theorem batch_threshold_filter:
  assumes "generate_test_cases fp max_value n_values = Inr results"
    and "results n = Some rows"
  shows "(2 < n \<longrightarrow>
           (\<forall>r\<in>set rows. tc_n r = n
              \<and> fermat_relative_error (tc_a r) (tc_b r) (tc_c r) n = Inr (tc_relative_error r)
              \<and> 0 \<le> tc_relative_error r \<and> tc_relative_error r \<le> float_tenth))
         \<and> (n = 2 \<longrightarrow>
              (\<exists>grid. grid_pass fp max_value n = Inr grid \<and> take (length grid) rows = grid
                 \<and> (\<forall>a\<in>{1..min max_value 30}. \<forall>b\<in>{1..min max_value 30}.
                       \<exists>r\<in>set grid. tc_a r = a \<and> tc_b r = b)))"
proof -
  from assms have "generate_for_n fp max_value n = Inr rows"
    by (simp add: generate_test_cases_lookup)
  then obtain grid ex where grid: "grid_pass fp max_value n = Inr grid"
    and ex: "exact_part fp max_value n = Inr ex" and rows: "rows = grid @ ex"
    unfolding generate_for_n_Inr_iff by blast
  have filtered: "tc_n r = n
              \<and> fermat_relative_error (tc_a r) (tc_b r) (tc_c r) n = Inr (tc_relative_error r)
              \<and> 0 \<le> tc_relative_error r \<and> tc_relative_error r \<le> float_tenth"
    if "2 < n" and "r \<in> set rows" for r
  proof -
    from that(1) ex have "ex = []" by (simp add: exact_part_def)
    with that(2) rows have "r \<in> set grid" by simp
    then obtain a b k rel
      where rel: "fermat_relative_error a b (select_c a b (int k) n) n = Inr rel"
        and r: "r \<in> set (grid_rows n a b (int k) rel)"
      unfolding grid_pass_mem [OF grid] by blast
    let ?c = "select_c a b (int k) n"
    have pos: "0 < ?c" by (simp add: select_c_pos)
    from r have kept: "\<not> (n > 2 \<and> rel > float_tenth)"
      and r_eq: "r = \<lparr>tc_a = a, tc_b = b, tc_c = ?c, tc_error = fermat_difference a b ?c n,
                      tc_relative_error = rel, tc_n = n\<rparr>"
      unfolding grid_rows_mem by blast+
    from kept that(1) have "rel \<le> float_tenth" by (simp add: not_less)
    moreover have "0 \<le> rel" using rel pos by (rule relative_error_nonneg)
    ultimately show ?thesis unfolding r_eq using rel by simp
  qed
  have unfiltered: "\<exists>r\<in>set grid. tc_a r = a \<and> tc_b r = b"
    if "n = 2" and "a \<in> {1..min max_value 30}" and "b \<in> {1..min max_value 30}" for a b
  proof -
    from grid_pass_roots [OF grid that(2,3)]
    obtain k rel where k: "root_int fp (a ^ n + b ^ n) n = Inr k"
      and rel: "fermat_relative_error a b (select_c a b (int k) n) n = Inr rel" by blast
    let ?r = "\<lparr>tc_a = a, tc_b = b, tc_c = select_c a b (int k) n,
             tc_error = fermat_difference a b (select_c a b (int k) n) n,
             tc_relative_error = rel, tc_n = n\<rparr>"
    from that(1) have "?r \<in> set (grid_rows n a b (int k) rel)"
      unfolding grid_rows_mem by simp
    with k rel that(2,3) have "?r \<in> set grid"
      unfolding grid_pass_mem [OF grid] by blast
    then show ?thesis by (intro bexI [of _ ?r]) simp_all
  qed
  from filtered unfiltered grid rows show ?thesis by auto
qed

theorem batch_threshold_filter_witness:
  "generate_test_cases exact_ops 3 [3]
     = Inr [3 \<mapsto> [\<lparr>tc_a = 1, tc_b = 3, tc_c = 3, tc_error = 1,
                        tc_relative_error = round_double (1 / 27), tc_n = 3\<rparr>,
                     \<lparr>tc_a = 3, tc_b = 1, tc_c = 3, tc_error = 1,
                        tc_relative_error = round_double (1 / 27), tc_n = 3\<rparr>]]
   \<and> fermat_relative_error 1 3 3 3 = Inr (round_double (1 / 27))
   \<and> 0 \<le> round_double (1 / 27) \<and> round_double (1 / 27) \<le> float_tenth
   \<and> generate_test_cases exact_ops 2 [2]
     = Inr [2 \<mapsto> [\<lparr>tc_a = 1, tc_b = 1, tc_c = 1, tc_error = 1,
                        tc_relative_error = 1, tc_n = 2\<rparr>,
                     \<lparr>tc_a = 1, tc_b = 2, tc_c = 2, tc_error = 1,
                        tc_relative_error = 1 / 4, tc_n = 2\<rparr>,
                     \<lparr>tc_a = 2, tc_b = 1, tc_c = 2, tc_error = 1,
                        tc_relative_error = 1 / 4, tc_n = 2\<rparr>,
                     \<lparr>tc_a = 2, tc_b = 2, tc_c = 3, tc_error = 1,
                        tc_relative_error = round_double (1 / 9), tc_n = 2\<rparr>]]
   \<and> (\<exists>grid. grid_pass exact_ops 2 2 = Inr grid
         \<and> (\<exists>r\<in>set grid. tc_a r = 1 \<and> tc_b r = 1)
         \<and> (\<exists>r\<in>set grid. tc_a r = 2 \<and> tc_b r = 2))"
proof -
  let ?r1 = "\<lparr>tc_a = 1, tc_b = 3, tc_c = 3, tc_error = 1,
                        tc_relative_error = round_double (1 / 27), tc_n = 3\<rparr>"
  let ?rows3 = "[?r1, \<lparr>tc_a = 3, tc_b = 1, tc_c = 3, tc_error = 1,
                        tc_relative_error = round_double (1 / 27), tc_n = 3\<rparr>]"
  have "[3 \<mapsto> ?rows3] 3 = Some ?rows3" by simp
  with batch_threshold_filter [OF run_3_3, of 3 ?rows3]
  have "\<forall>r\<in>set ?rows3. tc_n r = 3
              \<and> fermat_relative_error (tc_a r) (tc_b r) (tc_c r) 3 = Inr (tc_relative_error r)
              \<and> 0 \<le> tc_relative_error r \<and> tc_relative_error r \<le> float_tenth"
    by simp
  then have "tc_n ?r1 = 3
              \<and> fermat_relative_error (tc_a ?r1) (tc_b ?r1) (tc_c ?r1) 3 = Inr (tc_relative_error ?r1)
              \<and> 0 \<le> tc_relative_error ?r1 \<and> tc_relative_error ?r1 \<le> float_tenth"
    by (rule bspec) simp
  then have part1: "fermat_relative_error 1 3 3 3 = Inr (round_double (1 / 27))
      \<and> 0 \<le> round_double (1 / 27) \<and> round_double (1 / 27) \<le> float_tenth"
    by simp
  let ?rows2 = "[\<lparr>tc_a = 1, tc_b = 1, tc_c = 1, tc_error = 1,
                        tc_relative_error = 1, tc_n = 2\<rparr>,
                     \<lparr>tc_a = 1, tc_b = 2, tc_c = 2, tc_error = 1,
                        tc_relative_error = 1 / 4, tc_n = 2\<rparr>,
                     \<lparr>tc_a = 2, tc_b = 1, tc_c = 2, tc_error = 1,
                        tc_relative_error = 1 / 4, tc_n = 2\<rparr>,
                     \<lparr>tc_a = 2, tc_b = 2, tc_c = 3, tc_error = 1,
                        tc_relative_error = round_double (1 / 9), tc_n = 2\<rparr>]"
  have "[2 \<mapsto> ?rows2] 2 = Some ?rows2" by simp
  with batch_threshold_filter [OF run_2_2, of 2 ?rows2]
  obtain grid where "grid_pass exact_ops 2 2 = Inr grid"
    and all: "\<forall>a\<in>{1..min 2 30}. \<forall>b\<in>{1..min 2 30}. \<exists>r\<in>set grid. tc_a r = a \<and> tc_b r = b"
    by auto
  moreover from all have "\<exists>r\<in>set grid. tc_a r = 1 \<and> tc_b r = 1" by simp
  moreover from all have "\<exists>r\<in>set grid. tc_a r = 2 \<and> tc_b r = 2" by simp
  ultimately have part2: "\<exists>grid. grid_pass exact_ops 2 2 = Inr grid
         \<and> (\<exists>r\<in>set grid. tc_a r = 1 \<and> tc_b r = 1)
         \<and> (\<exists>r\<in>set grid. tc_a r = 2 \<and> tc_b r = 2)"
    by blast
  from run_3_3 part1 run_2_2 part2 show ?thesis by blast
qed

text \<open>
  Claim C2.  Every row that the enumeration for \<open>n = 2\<close> appends (the rows after those of
  the grid loop) satisfies \<open>a\<^sup>2 + b\<^sup>2 = c\<^sup>2\<close> over the integers, carries error 0 and relative
  error 0, and has \<open>a \<le> b\<close>, \<open>a < c\<close>, \<open>b < c\<close> and \<open>c \<le> max_value\<close>.
\<close>

theorem exact_rows_are_pythagorean:
  assumes "generate_test_cases fp max_value n_values = Inr results"
    and "results 2 = Some rows"
    and "grid_pass fp max_value 2 = Inr grid"
  shows "take (length grid) rows = grid
         \<and> (\<forall>r\<in>set (drop (length grid) rows).
               tc_a r ^ 2 + tc_b r ^ 2 = tc_c r ^ 2
               \<and> tc_error r = 0 \<and> tc_relative_error r = 0
               \<and> tc_a r \<le> tc_b r \<and> tc_a r < tc_c r \<and> tc_b r < tc_c r
               \<and> tc_c r \<le> max_value)"
proof -
  from assms(1,2) have "generate_for_n fp max_value 2 = Inr rows"
    by (simp add: generate_test_cases_lookup)
  with assms(3) obtain ex where ex: "exact_pass fp max_value 2 [] = Inr ex"
    and rows: "rows = grid @ ex"
    using generate_for_2_parts by blast
  have "tc_a r ^ 2 + tc_b r ^ 2 = tc_c r ^ 2
               \<and> tc_error r = 0 \<and> tc_relative_error r = 0
               \<and> tc_a r \<le> tc_b r \<and> tc_a r < tc_c r \<and> tc_b r < tc_c r
               \<and> tc_c r \<le> max_value"
    if "r \<in> set ex" for r
  proof -
    from that obtain a b k where a: "1 \<le> a" and ab: "a \<le> b"
      and r: "r \<in> set (exact_rows max_value 2 a b (int k))"
      unfolding exact_pass_mem [OF ex] by auto
    from r have sq: "(int k) ^ 2 = a ^ 2 + b ^ 2" and le: "int k \<le> max_value"
      and r_eq: "r = \<lparr>tc_a = a, tc_b = b, tc_c = int k, tc_error = 0,
                      tc_relative_error = 0, tc_n = 2\<rparr>"
      by (simp_all add: exact_rows_mem)
    have "b < int k"
      using a ab _ sq by (rule hypotenuse_greater) simp
    with a ab sq le show ?thesis by (simp add: r_eq)
  qed
  with rows show ?thesis by simp
qed

theorem exact_rows_are_pythagorean_witness:
  "generate_test_cases exact_ops 5 [2] = Inr [2 \<mapsto> projr (generate_for_n exact_ops 5 2)]
   \<and> grid_pass exact_ops 5 2 = Inr (projr (grid_pass exact_ops 5 2))
   \<and> drop (length (projr (grid_pass exact_ops 5 2))) (projr (generate_for_n exact_ops 5 2))
       = [\<lparr>tc_a = 3, tc_b = 4, tc_c = 5, tc_error = 0, tc_relative_error = 0, tc_n = 2\<rparr>]
   \<and> (3 :: int) ^ 2 + 4 ^ 2 = 5 ^ 2 \<and> (3 :: int) \<le> 4 \<and> (3 :: int) < 5 \<and> (4 :: int) < 5
   \<and> (5 :: int) \<le> 5"
proof -
  let ?rows = "projr (generate_for_n exact_ops 5 2)"
  let ?grid = "projr (grid_pass exact_ops 5 2)"
  let ?r = "\<lparr>tc_a = 3, tc_b = 4, tc_c = 5, tc_error = 0, tc_relative_error = 0, tc_n = 2\<rparr>"
  have appended: "drop (length ?grid) ?rows = [?r]"
    by code_simp
  have "[2 \<mapsto> ?rows] 2 = Some ?rows" by simp
  from exact_rows_are_pythagorean [OF run_5_2(1) this run_5_2(2)]
  have "\<forall>r\<in>set (drop (length ?grid) ?rows).
               tc_a r ^ 2 + tc_b r ^ 2 = tc_c r ^ 2
               \<and> tc_error r = 0 \<and> tc_relative_error r = 0
               \<and> tc_a r \<le> tc_b r \<and> tc_a r < tc_c r \<and> tc_b r < tc_c r
               \<and> tc_c r \<le> 5"
    by (rule conjunct2)
  then have "tc_a ?r ^ 2 + tc_b ?r ^ 2 = tc_c ?r ^ 2
               \<and> tc_error ?r = 0 \<and> tc_relative_error ?r = 0
               \<and> tc_a ?r \<le> tc_b ?r \<and> tc_a ?r < tc_c ?r \<and> tc_b ?r < tc_c ?r
               \<and> tc_c ?r \<le> 5"
    unfolding appended by simp
  then have "(3 :: int) ^ 2 + 4 ^ 2 = 5 ^ 2 \<and> (3 :: int) \<le> 4 \<and> (3 :: int) < 5
      \<and> (4 :: int) < 5 \<and> (5 :: int) \<le> 5"
    by simp
  with run_5_2 appended show ?thesis by blast
qed

text \<open>
  Every row of a table has a positive \<open>c\<close>, and \<open>a\<close> and \<open>b\<close> between 1 and \<open>max_value\<close>.
\<close>

lemma batch_rows_positive:
  assumes "generate_test_cases fp max_value n_values = Inr results"
    and "results n = Some rows"
  shows "\<forall>r\<in>set rows. 0 < tc_c r \<and> 1 \<le> tc_a r \<and> tc_a r \<le> max_value
           \<and> 1 \<le> tc_b r \<and> tc_b r \<le> max_value"
proof
  fix r assume r: "r \<in> set rows"
  from assms have "generate_for_n fp max_value n = Inr rows"
    by (simp add: generate_test_cases_lookup)
  then obtain grid ex where grid: "grid_pass fp max_value n = Inr grid"
    and ex: "exact_part fp max_value n = Inr ex" and rows: "rows = grid @ ex"
    unfolding generate_for_n_Inr_iff by blast
  from r rows consider "r \<in> set grid" | "r \<in> set ex" by auto
  then show "0 < tc_c r \<and> 1 \<le> tc_a r \<and> tc_a r \<le> max_value
           \<and> 1 \<le> tc_b r \<and> tc_b r \<le> max_value"
  proof cases
    case 1
    then obtain a b k rel where "a \<in> {1..min max_value 30}" "b \<in> {1..min max_value 30}"
      and "r \<in> set (grid_rows n a b (int k) rel)"
      unfolding grid_pass_mem [OF grid] by blast
    then show ?thesis
      unfolding grid_rows_mem by (simp add: select_c_pos)
  next
    case 2
    with ex have two: "n = 2" and pass: "exact_pass fp max_value n [] = Inr ex"
      by (auto simp: exact_part_def split: if_splits)
    from 2 obtain a b k where a: "a \<in> {1..max_value}" and b: "b \<in> {a..max_value}"
      and "r \<in> set (exact_rows max_value n a b (int k))"
      unfolding exact_pass_mem [OF pass] by blast
    then have sq: "(int k) ^ 2 = a ^ 2 + b ^ 2"
      and r_eq: "r = \<lparr>tc_a = a, tc_b = b, tc_c = int k, tc_error = 0,
                      tc_relative_error = 0, tc_n = n\<rparr>"
      by (simp_all add: exact_rows_mem)
    from a b have "1 \<le> a" "a \<le> b" by simp_all
    then have "b < int k" using _ sq by (rule hypotenuse_greater) simp
    with a b show ?thesis by (simp add: r_eq)
  qed
qed

text \<open>
  Claim C3.  The grid loop does not compare the retained \<open>c\<close> with \<open>max_value\<close>: for
  \<open>max_value = 2\<close> and \<open>n = 2\<close> the pair \<open>(2, 2)\<close> has the candidates 2 (error 4) and 3
  (error 1), and the table holds the row with \<open>c = 3\<close>, which exceeds \<open>max_value\<close>.
\<close>

theorem batch_row_exceeds_max_value:
  "result_set exact_ops 2 [2] 2
     = Some [\<lparr>tc_a = 1, tc_b = 1, tc_c = 1, tc_error = 1, tc_relative_error = 1, tc_n = 2\<rparr>,
             \<lparr>tc_a = 1, tc_b = 2, tc_c = 2, tc_error = 1, tc_relative_error = 1 / 4, tc_n = 2\<rparr>,
             \<lparr>tc_a = 2, tc_b = 1, tc_c = 2, tc_error = 1, tc_relative_error = 1 / 4, tc_n = 2\<rparr>,
             \<lparr>tc_a = 2, tc_b = 2, tc_c = 3, tc_error = 1, tc_relative_error = round_double (1 / 9), tc_n = 2\<rparr>]
   \<and> tc_c (last (the (result_set exact_ops 2 [2] 2))) = 3
   \<and> \<not> tc_c (last (the (result_set exact_ops 2 [2] 2))) \<le> 2"
  by (simp add: result_set_def run_2_2)

text \<open>
  Claim C4, as stated, fails for \<open>n = 2\<close>: with \<open>max_value = 5\<close> the grid loop emits the row
  \<open>(3, 4, 5)\<close> (index 13) and the enumeration appends \<open>(3, 4, 5)\<close> again (index 25).
\<close>

theorem batch_rows_per_pair_counterexample:
  "result_set exact_ops 5 [2] 2 \<noteq> None
   \<and> \<not> distinct (map key_of (the (result_set exact_ops 5 [2] 2)))
   \<and> the (result_set exact_ops 5 [2] 2) ! 13
       = \<lparr>tc_a = 3, tc_b = 4, tc_c = 5, tc_error = 0, tc_relative_error = 0, tc_n = 2\<rparr>
   \<and> the (result_set exact_ops 5 [2] 2) ! 25
       = \<lparr>tc_a = 3, tc_b = 4, tc_c = 5, tc_error = 0, tc_relative_error = 0, tc_n = 2\<rparr>"
  by code_simp

text \<open>
  Claim C4, amended.  For an exponent other than 2 the table has at most one row per pair
  \<open>(a, b)\<close>.  In general the table is the rows of the grid loop followed by the rows of
  the enumeration (present for \<open>n = 2\<close> only); each of the two parts has at most one row
  per pair, and every grid row retains the bracketing candidate of lower error, \<open>c_low\<close>
  on a tie.
\<close>

theorem batch_rows_per_pair:
  assumes "generate_test_cases fp max_value n_values = Inr results"
    and "results n = Some rows"
  shows "(n \<noteq> 2 \<longrightarrow> distinct (map key_of rows))
         \<and> (\<exists>grid ex. rows = grid @ ex
           \<and> grid_pass fp max_value n = Inr grid
           \<and> (if n = 2 then exact_pass fp max_value n [] = Inr ex else ex = [])
           \<and> distinct (map key_of grid) \<and> distinct (map key_of ex)
           \<and> (\<forall>r\<in>set grid. \<exists>k. root_int fp (tc_a r ^ n + tc_b r ^ n) n = Inr k
                 \<and> tc_c r = (if fermat_difference (tc_a r) (tc_b r) (int k) n
                                  \<le> fermat_difference (tc_a r) (tc_b r) (int k + 1) n
                              then int k else int k + 1)
                 \<and> tc_error r = min (fermat_difference (tc_a r) (tc_b r) (int k) n)
                                     (fermat_difference (tc_a r) (tc_b r) (int k + 1) n)))"
proof -
  from assms have "generate_for_n fp max_value n = Inr rows"
    by (simp add: generate_test_cases_lookup)
  then obtain grid ex where grid: "grid_pass fp max_value n = Inr grid"
    and ex: "exact_part fp max_value n = Inr ex" and rows: "rows = grid @ ex"
    unfolding generate_for_n_Inr_iff by blast
  from ex have ex_cases: "if n = 2 then exact_pass fp max_value n [] = Inr ex else ex = []"
    by (simp add: exact_part_def split: if_splits)
  have ex_distinct: "distinct (map key_of ex)"
  proof (cases "n = 2")
    case True
    with ex have "exact_pass fp max_value n [] = Inr ex" by (simp add: exact_part_def)
    then show ?thesis by (rule exact_pass_distinct)
  next
    case False
    with ex show ?thesis by (simp add: exact_part_def)
  qed
  have lower: "\<exists>k. root_int fp (tc_a r ^ n + tc_b r ^ n) n = Inr k
                 \<and> tc_c r = (if fermat_difference (tc_a r) (tc_b r) (int k) n
                                  \<le> fermat_difference (tc_a r) (tc_b r) (int k + 1) n
                              then int k else int k + 1)
                 \<and> tc_error r = min (fermat_difference (tc_a r) (tc_b r) (int k) n)
                                     (fermat_difference (tc_a r) (tc_b r) (int k + 1) n)"
    if "r \<in> set grid" for r
  proof -
    from that obtain a b k rel where a: "a \<in> {1..min max_value 30}"
      and b: "b \<in> {1..min max_value 30}"
      and k: "root_int fp (a ^ n + b ^ n) n = Inr k"
      and r: "r \<in> set (grid_rows n a b (int k) rel)"
      unfolding grid_pass_mem [OF grid] by blast
    from grid_pass_roots [OF grid a b] have n: "0 < n" ..
    from a b have "1 \<le> a" and "1 \<le> b" by simp_all
    then have sel: "select_c a b (int k) n =
           (if fermat_difference a b (int k) n \<le> fermat_difference a b (int k + 1) n
            then int k else int k + 1)"
      using n by (rule select_c_lower_error) simp
    from r have r_eq: "tc_a r = a" "tc_b r = b" "tc_c r = select_c a b (int k) n"
      "tc_error r = fermat_difference a b (select_c a b (int k) n) n"
      unfolding grid_rows_mem by simp_all
    show ?thesis
      unfolding r_eq using k by (intro exI [of _ k]) (simp add: sel min_def)
  qed
  have "distinct (map key_of rows)" if "n \<noteq> 2"
    using that rows ex_cases grid_pass_distinct [OF grid] by simp
  moreover from rows grid ex_cases grid_pass_distinct [OF grid] ex_distinct lower
  have "\<exists>grid ex. rows = grid @ ex
           \<and> grid_pass fp max_value n = Inr grid
           \<and> (if n = 2 then exact_pass fp max_value n [] = Inr ex else ex = [])
           \<and> distinct (map key_of grid) \<and> distinct (map key_of ex)
           \<and> (\<forall>r\<in>set grid. \<exists>k. root_int fp (tc_a r ^ n + tc_b r ^ n) n = Inr k
                 \<and> tc_c r = (if fermat_difference (tc_a r) (tc_b r) (int k) n
                                  \<le> fermat_difference (tc_a r) (tc_b r) (int k + 1) n
                              then int k else int k + 1)
                 \<and> tc_error r = min (fermat_difference (tc_a r) (tc_b r) (int k) n)
                                     (fermat_difference (tc_a r) (tc_b r) (int k + 1) n))"
    by blast
  ultimately show ?thesis by blast
qed

theorem batch_rows_per_pair_witness:
  "generate_test_cases exact_ops 3 [3]
     = Inr [3 \<mapsto> [\<lparr>tc_a = 1, tc_b = 3, tc_c = 3, tc_error = 1,
                        tc_relative_error = round_double (1 / 27), tc_n = 3\<rparr>,
                     \<lparr>tc_a = 3, tc_b = 1, tc_c = 3, tc_error = 1,
                        tc_relative_error = round_double (1 / 27), tc_n = 3\<rparr>]]
   \<and> distinct (map key_of [\<lparr>tc_a = 1, tc_b = 3, tc_c = 3, tc_error = 1,
                        tc_relative_error = round_double (1 / 27), tc_n = 3\<rparr>,
                     \<lparr>tc_a = 3, tc_b = 1, tc_c = 3, tc_error = 1,
                        tc_relative_error = round_double (1 / 27), tc_n = 3\<rparr>])
   \<and> grid_pass exact_ops 3 3
       = Inr [\<lparr>tc_a = 1, tc_b = 3, tc_c = 3, tc_error = 1,
                        tc_relative_error = round_double (1 / 27), tc_n = 3\<rparr>,
                     \<lparr>tc_a = 3, tc_b = 1, tc_c = 3, tc_error = 1,
                        tc_relative_error = round_double (1 / 27), tc_n = 3\<rparr>]"
proof -
  let ?rows3 = "[\<lparr>tc_a = 1, tc_b = 3, tc_c = 3, tc_error = 1,
                        tc_relative_error = round_double (1 / 27), tc_n = 3\<rparr>,
                     \<lparr>tc_a = 3, tc_b = 1, tc_c = 3, tc_error = 1,
                        tc_relative_error = round_double (1 / 27), tc_n = 3\<rparr>]"
  have look: "[3 \<mapsto> ?rows3] 3 = Some ?rows3" by simp
  note per_pair = batch_rows_per_pair [OF run_3_3 look]
  from per_pair have d: "distinct (map key_of ?rows3)"
    by simp
  from per_pair obtain grid ex where "?rows3 = grid @ ex"
    and "grid_pass exact_ops 3 3 = Inr grid"
    and "if (3 :: nat) = 2 then exact_pass exact_ops 3 3 [] = Inr ex else ex = []"
    by blast
  then have "grid_pass exact_ops 3 3 = Inr ?rows3"
    by simp
  with run_3_3 d show ?thesis by blast
qed




text \<open>
  Claim C9, as stated, fails in both directions.  With \<open>c = 0\<close> and \<open>n = 0\<close> the divisor
  \<open>c ^ 0\<close> is 1 and the function returns.  With \<open>c = 1\<close>, \<open>n = 1\<close> and \<open>a = 2 ^ 1024\<close> the
  quotient is beyond the range of doubles and \<^verbatim>\<open>/\<close> raises \<^verbatim>\<open>OverflowError\<close>.
\<close>

theorem relative_error_failures_counterexample:
  "fermat_relative_error 1 1 0 0 = Inr 1
   \<and> fermat_relative_error (2 ^ 1024) 0 1 1 = Inl OverflowError"
  by code_simp

text \<open>
  Claim C9, amended, for exponents \<open>n \<ge> 0\<close>.  \<^verbatim>\<open>fermat_relative_error\<close> raises
  \<^verbatim>\<open>ZeroDivisionError\<close> exactly when \<open>c = 0\<close> and \<open>n > 0\<close>.  In every other case it
  returns the double nearest to the quotient, unless that double would be \<open>2 ^ 1024\<close> or
  more, when it raises \<^verbatim>\<open>OverflowError\<close>; a positive \<open>c\<close> does not exclude that.  Both
  generators call it with a positive \<open>c\<close> only, so neither the grid body (for \<open>n > 0\<close>,
  once the root is computed) nor the candidate test raises \<^verbatim>\<open>ZeroDivisionError\<close>.
\<close>

theorem relative_error_failures:
  "(fermat_relative_error a b c n = Inl ZeroDivisionError \<longleftrightarrow> c = 0 \<and> 0 < n)
   \<and> (c \<noteq> 0 \<or> n = 0 \<longrightarrow>
        fermat_relative_error a b c n
          = (if double_limit
                  \<le> \<bar>round_double (of_int (fermat_difference a b c n) / of_int (c ^ n))\<bar>
             then Inl OverflowError
             else Inr (round_double (of_int (fermat_difference a b c n) / of_int (c ^ n)))))
   \<and> (\<forall>k data. 0 < n \<and> root_int fp (a ^ n + b ^ n) n = Inr k \<longrightarrow>
          grid_body fp n (a, b) data \<noteq> Inl ZeroDivisionError)
   \<and> (\<forall>sols. near_candidate max_value n t a b c sols \<noteq> Inl ZeroDivisionError)"
proof -
  have "fermat_relative_error a b c n = Inl ZeroDivisionError \<longleftrightarrow> c = 0 \<and> 0 < n"
    by (simp add: fermat_relative_error_zero_iff)
  moreover have "fermat_relative_error a b c n
          = (if double_limit
                  \<le> \<bar>round_double (of_int (fermat_difference a b c n) / of_int (c ^ n))\<bar>
             then Inl OverflowError
             else Inr (round_double (of_int (fermat_difference a b c n) / of_int (c ^ n))))"
    if "c \<noteq> 0 \<or> n = 0"
  proof -
    from that have "c ^ n \<noteq> 0" by auto
    then show ?thesis
      unfolding fermat_relative_error_def fermat_difference_def by (rule true_div_nonzero)
  qed
  ultimately show ?thesis
    using grid_body_no_zero_division [of n fp a b] near_candidate_no_zero_division [of max_value n t a b c]
    by blast
qed

theorem relative_error_failures_witness:
  "fermat_relative_error 3 4 0 2 = Inl ZeroDivisionError
   \<and> fermat_relative_error 3 4 0 0 \<noteq> Inl ZeroDivisionError
   \<and> fermat_relative_error 2 2 3 2 = Inr (round_double (1 / 9))
   \<and> fermat_relative_error (2 ^ 1024) 0 1 1 = Inl OverflowError
   \<and> root_int exact_ops (3 ^ 2 + 4 ^ 2) 2 = Inr 5
   \<and> grid_body exact_ops 2 (3, 4) [] \<noteq> Inl ZeroDivisionError
   \<and> near_candidate 5 2 float_tenth 3 4 0 [] \<noteq> Inl ZeroDivisionError"
proof -
  have root: "root_int exact_ops (3 ^ 2 + 4 ^ 2) 2 = Inr 5" by code_simp
  have small: "\<not> double_limit \<le> \<bar>round_double (of_int (fermat_difference 2 2 3 2) / of_int (3 ^ 2))\<bar>"
    by code_simp
  have q: "(of_int (fermat_difference 2 2 3 2) / of_int (3 ^ 2) :: rat) = 1 / 9"
    by (simp add: fermat_difference_def)
  have big: "double_limit \<le> \<bar>round_double (of_int (fermat_difference (2 ^ 1024) 0 1 1) / of_int (1 ^ 1))\<bar>"
    by code_simp
  from relative_error_failures [of 3 4 0 2 exact_ops 5 float_tenth]
  have zero: "fermat_relative_error 3 4 0 2 = Inl ZeroDivisionError"
    and near: "near_candidate 5 2 float_tenth 3 4 0 [] \<noteq> Inl ZeroDivisionError"
    by simp_all
  from relative_error_failures [of 3 4 0 0 exact_ops 5 float_tenth]
  have zero': "fermat_relative_error 3 4 0 0 \<noteq> Inl ZeroDivisionError"
    by simp
  from relative_error_failures [of 2 2 3 2 exact_ops 5 float_tenth] small
  have pos: "fermat_relative_error 2 2 3 2 = Inr (round_double (1 / 9))"
    unfolding q by simp
  from relative_error_failures [of "2 ^ 1024" 0 1 1 exact_ops 5 float_tenth] big
  have over: "fermat_relative_error (2 ^ 1024) 0 1 1 = Inl OverflowError"
    by simp
  from relative_error_failures [of 3 4 5 2 exact_ops 5 float_tenth] root
  have grid: "grid_body exact_ops 2 (3, 4) [] \<noteq> Inl ZeroDivisionError"
    by simp
  from zero zero' pos over root grid near show ?thesis by simp
qed

text \<open>
  The enumeration and the float square root.  A Pythagorean triple within the bounds is
  appended exactly when the truncated float square root of \<open>c\<^sup>2\<close> is \<open>c\<close>: the loops
  reach every pair \<open>a \<le> b\<close>, and what decides is the value of \<^verbatim>\<open>int(np.sqrt(c_squared))\<close>.
\<close>

lemma exact_enumeration_complete_iff:
  assumes "generate_test_cases fp max_value n_values = Inr results"
    and "results 2 = Some rows"
    and "grid_pass fp max_value 2 = Inr grid"
    and "1 \<le> a" and "a \<le> b" and "0 \<le> c" and "c \<le> max_value"
    and "a ^ 2 + b ^ 2 = c ^ 2"
  shows "\<lparr>tc_a = a, tc_b = b, tc_c = c, tc_error = 0, tc_relative_error = 0, tc_n = 2\<rparr>
           \<in> set (drop (length grid) rows)
         \<longleftrightarrow> sqrt_int fp (c ^ 2) = Inr (nat c)"
proof -
  let ?row = "\<lparr>tc_a = a, tc_b = b, tc_c = c, tc_error = 0, tc_relative_error = 0, tc_n = 2\<rparr>"
  from assms(1,2) have "generate_for_n fp max_value 2 = Inr rows"
    by (simp add: generate_test_cases_lookup)
  with assms(3) obtain ex where ex: "exact_pass fp max_value 2 [] = Inr ex"
    and rows: "rows = grid @ ex"
    using generate_for_2_parts by blast
  have "b < c"
    using assms(4,5,6) assms(8) [symmetric] by (rule hypotenuse_greater)
  with assms(4,5,7) have a: "a \<in> {1..max_value}" and b: "b \<in> {a..max_value}"
    by simp_all
  have "?row \<in> set ex \<longleftrightarrow> sqrt_int fp (c ^ 2) = Inr (nat c)"
  proof
    assume "?row \<in> set ex"
    then obtain a' b' k where k: "sqrt_int fp (a' ^ 2 + b' ^ 2) = Inr k"
      and "?row \<in> set (exact_rows max_value 2 a' b' (int k))"
      unfolding exact_pass_mem [OF ex] by blast
    then have "a' = a" "b' = b" "int k = c"
      by (simp_all add: exact_rows_mem)
    with k assms(8) show "sqrt_int fp (c ^ 2) = Inr (nat c)"
      by auto
  next
    assume "sqrt_int fp (c ^ 2) = Inr (nat c)"
    with assms(8) have k: "sqrt_int fp (a ^ 2 + b ^ 2) = Inr (nat c)" by simp
    from assms(6,7,8) have "?row \<in> set (exact_rows max_value 2 a b (int (nat c)))"
      by (simp add: exact_rows_mem)
    with a b k show "?row \<in> set ex"
      unfolding exact_pass_mem [OF ex] by blast
  qed
  with rows show ?thesis by simp
qed

end
